theory Spec2Isabelle
  imports Main "HOL-Library.Product_Lexorder"
begin

section \<open>Literals, clauses and deferred combinator values\<close>

text \<open>
  \<^verbatim>\<open>TRUE = sys.maxsize\<close>, \<^verbatim>\<open>FALSE = -TRUE\<close> (\<^verbatim>\<open>conda/common/_logic.py\<close>).
  Python integers are unbounded, so literals are \<^typ>\<open>int\<close>; \<^verbatim>\<open>sys.maxsize\<close> is
  \<open>2^63 - 1\<close> on a 64-bit CPython.
\<close>

definition TRUE :: int where
  "TRUE = 9223372036854775807"

definition FALSE :: int where
  "FALSE = - TRUE"

type_synonym clause = "int list"

text \<open>A polarity is Python's \<^verbatim>\<open>True\<close>, \<^verbatim>\<open>False\<close> or \<^verbatim>\<open>None\<close>.\<close>

type_synonym polarity = "bool option"

text \<open>
  What a combinator returns: an integer literal, or the tuple \<^verbatim>\<open>(pval, nval)\<close> of two
  clause lists.
\<close>

datatype val = Lit int | Deferred "clause list" "clause list"

datatype error = IndexError | KeyError | TypeError | ValueError | OverflowError

section \<open>The clause stores\<close>

subsection \<open>\<^verbatim>\<open>_ClauseList\<close>\<close>

record ClauseList =
  clause_list :: "clause list"

text \<open>
  Python's \<^verbatim>\<open>xs[n:] = []\<close> keeps the first \<open>n\<close> elements; a negative \<open>n\<close> counts from
  the end, and every start is clipped to \<open>0 .. len(xs)\<close>.
\<close>

definition slice_start :: "int \<Rightarrow> nat \<Rightarrow> nat" where
  "slice_start n len =
     (if n < 0 then nat (max 0 (int len + n)) else min (nat n) len)"

definition ClauseList_init :: ClauseList where
  "ClauseList_init = \<lparr>clause_list = []\<rparr>"

definition ClauseList_append :: "clause \<Rightarrow> ClauseList \<Rightarrow> ClauseList" where
  "ClauseList_append c s = s\<lparr>clause_list := clause_list s @ [c]\<rparr>"

definition ClauseList_extend :: "clause list \<Rightarrow> ClauseList \<Rightarrow> ClauseList" where
  "ClauseList_extend cs s = s\<lparr>clause_list := clause_list s @ cs\<rparr>"

definition ClauseList_get_clause_count :: "ClauseList \<Rightarrow> int" where
  "ClauseList_get_clause_count s = int (length (clause_list s))"

definition ClauseList_save_state :: "ClauseList \<Rightarrow> int" where
  "ClauseList_save_state s = int (length (clause_list s))"

definition ClauseList_restore_state :: "int \<Rightarrow> ClauseList \<Rightarrow> ClauseList" where
  "ClauseList_restore_state saved_state s =
     s\<lparr>clause_list :=
         take (slice_start saved_state (length (clause_list s))) (clause_list s)\<rparr>"

definition ClauseList_as_list :: "ClauseList \<Rightarrow> clause list" where
  "ClauseList_as_list s = clause_list s"

subsection \<open>\<^verbatim>\<open>_ClauseArray\<close>\<close>

text \<open>
  The flat store is an \<^verbatim>\<open>array('i')\<close>: a C \<^verbatim>\<open>int\<close> array. Appending a value outside
  \<open>-2^31 .. 2^31 - 1\<close> raises \<^verbatim>\<open>OverflowError\<close>; \<^verbatim>\<open>array.extend\<close> of a tuple appends
  item by item, so the items before the offending one stay in the array.
\<close>

record ClauseArray =
  clause_array :: "int list"

definition fits_int :: "int \<Rightarrow> bool" where
  "fits_int v \<longleftrightarrow> - 2147483648 \<le> v \<and> v \<le> 2147483647"

fun array_extend :: "int list \<Rightarrow> int list \<Rightarrow> error option \<times> int list" where
  "array_extend a [] = (None, a)"
| "array_extend a (v # vs) =
     (if fits_int v then array_extend (a @ [v]) vs else (Some OverflowError, a))"

definition ClauseArray_init :: ClauseArray where
  "ClauseArray_init = \<lparr>clause_array = []\<rparr>"

definition ClauseArray_append :: "clause \<Rightarrow> ClauseArray \<Rightarrow> error option \<times> ClauseArray" where
  "ClauseArray_append c s =
     (case array_extend (clause_array s) c of
        (Some e, a) \<Rightarrow> (Some e, s\<lparr>clause_array := a\<rparr>)
      | (None, a) \<Rightarrow> (None, s\<lparr>clause_array := a @ [0]\<rparr>))"

fun ClauseArray_extend :: "clause list \<Rightarrow> ClauseArray \<Rightarrow> error option \<times> ClauseArray" where
  "ClauseArray_extend [] s = (None, s)"
| "ClauseArray_extend (c # cs) s =
     (case ClauseArray_append c s of
        (Some e, s') \<Rightarrow> (Some e, s')
      | (None, s') \<Rightarrow> ClauseArray_extend cs s')"

definition ClauseArray_get_clause_count :: "ClauseArray \<Rightarrow> int" where
  "ClauseArray_get_clause_count s = int (count_list (clause_array s) 0)"

definition ClauseArray_save_state :: "ClauseArray \<Rightarrow> int" where
  "ClauseArray_save_state s = int (length (clause_array s))"

definition ClauseArray_restore_state :: "int \<Rightarrow> ClauseArray \<Rightarrow> ClauseArray" where
  "ClauseArray_restore_state saved_state s =
     s\<lparr>clause_array :=
         take (slice_start saved_state (length (clause_array s))) (clause_array s)\<rparr>"

text \<open>
  \<^verbatim>\<open>as_list\<close> walks the array with a running \<^verbatim>\<open>clause\<close>, yielding it at every \<open>0\<close>;
  what follows the last \<open>0\<close> is never yielded.
\<close>

fun as_list_loop :: "int list \<Rightarrow> clause \<Rightarrow> clause list" where
  "as_list_loop [] clause = []"
| "as_list_loop (v # vs) clause =
     (if v = 0 then clause # as_list_loop vs [] else as_list_loop vs (clause @ [v]))"

definition ClauseArray_as_list :: "ClauseArray \<Rightarrow> clause list" where
  "ClauseArray_as_list s = as_list_loop (clause_array s) []"

text \<open>The operations a caller performs on a store between a save and a restore.\<close>

datatype store_op = Append clause | Extend "clause list"

fun ClauseList_op :: "store_op \<Rightarrow> ClauseList \<Rightarrow> ClauseList" where
  "ClauseList_op (Append c) s = ClauseList_append c s"
| "ClauseList_op (Extend cs) s = ClauseList_extend cs s"

fun ClauseList_ops :: "store_op list \<Rightarrow> ClauseList \<Rightarrow> ClauseList" where
  "ClauseList_ops [] s = s"
| "ClauseList_ops (x # xs) s = ClauseList_ops xs (ClauseList_op x s)"

text \<open>
  On the array an operation may raise; the store is then left as the exception found it
  and the caller goes on with the next operation.
\<close>

fun ClauseArray_op :: "store_op \<Rightarrow> ClauseArray \<Rightarrow> ClauseArray" where
  "ClauseArray_op (Append c) s = snd (ClauseArray_append c s)"
| "ClauseArray_op (Extend cs) s = snd (ClauseArray_extend cs s)"

fun ClauseArray_ops :: "store_op list \<Rightarrow> ClauseArray \<Rightarrow> ClauseArray" where
  "ClauseArray_ops [] s = s"
| "ClauseArray_ops (x # xs) s = ClauseArray_ops xs (ClauseArray_op x s)"

section \<open>The driver: class \<^verbatim>\<open>Clauses\<close>\<close>

text \<open>
  The state of a \<^verbatim>\<open>Clauses\<close> object: the flag \<^verbatim>\<open>unsat\<close>, the variable counter
  \<^verbatim>\<open>m\<close>, and the \<^verbatim>\<open>_ClauseList\<close> held by its \<^verbatim>\<open>_SatSolver\<close>. The field
  \<open>backend_calls\<close> is instrumentation: it counts the calls of \<^verbatim>\<open>_SatSolver.run\<close>.
\<close>

record Clauses =
  unsat :: bool
  m :: int
  sat_solver :: ClauseList
  backend_calls :: nat

definition Clauses_init :: "int \<Rightarrow> Clauses" where
  "Clauses_init m0 =
     \<lparr>unsat = False, m = m0, sat_solver = ClauseList_init, backend_calls = 0\<rparr>"

definition add_clause :: "clause \<Rightarrow> Clauses \<Rightarrow> Clauses" where
  "add_clause c s = s\<lparr>sat_solver := ClauseList_append c (sat_solver s)\<rparr>"

definition add_clauses :: "clause list \<Rightarrow> Clauses \<Rightarrow> Clauses" where
  "add_clauses cs s = s\<lparr>sat_solver := ClauseList_extend cs (sat_solver s)\<rparr>"

definition as_list :: "Clauses \<Rightarrow> clause list" where
  "as_list s = ClauseList_as_list (sat_solver s)"

definition save_state :: "Clauses \<Rightarrow> int" where
  "save_state s = ClauseList_save_state (sat_solver s)"

definition restore_state :: "int \<Rightarrow> Clauses \<Rightarrow> Clauses" where
  "restore_state saved_state s =
     s\<lparr>sat_solver := ClauseList_restore_state saved_state (sat_solver s)\<rparr>"

definition new_var :: "Clauses \<Rightarrow> int \<times> Clauses" where
  "new_var s = (m s + 1, s\<lparr>m := m s + 1\<rparr>)"

text \<open>
  \<^verbatim>\<open>assign\<close>: a tuple is materialised into a fresh variable \<open>x\<close> with the clauses
  \<^verbatim>\<open>(-x,) + y\<close> for \<open>y\<close> in \<^verbatim>\<open>vals[0]\<close> and \<^verbatim>\<open>(x,) + y\<close> for \<open>y\<close> in \<^verbatim>\<open>vals[1]\<close>.
\<close>

definition assign :: "val \<Rightarrow> Clauses \<Rightarrow> int \<times> Clauses" where
  "assign vals s =
     (case vals of
        Deferred pval nval \<Rightarrow>
          (case new_var s of
             (x, s1) \<Rightarrow>
               (x, add_clauses (map (\<lambda>y. x # y) nval)
                     (add_clauses (map (\<lambda>y. (- x) # y) pval) s1)))
      | Lit v \<Rightarrow> (v, s))"

definition Not_lit :: "int \<Rightarrow> int" where
  "Not_lit x = - x"

definition pos_pol :: "polarity \<Rightarrow> bool" where
  "pos_pol polarity \<longleftrightarrow> polarity = Some True \<or> polarity = None"

definition neg_pol :: "polarity \<Rightarrow> bool" where
  "neg_pol polarity \<longleftrightarrow> polarity = Some False \<or> polarity = None"

definition And :: "int \<Rightarrow> int \<Rightarrow> polarity \<Rightarrow> bool \<Rightarrow> Clauses \<Rightarrow> val \<times> Clauses" where
  "And f g polarity add_new_clauses s =
     (if f = FALSE \<or> g = FALSE then (Lit FALSE, s)
      else if f = TRUE then (Lit g, s)
      else if g = TRUE then (Lit f, s)
      else if f = g then (Lit f, s)
      else if f = - g then (Lit FALSE, s)
      else let (f, g) = (if g < f then (g, f) else (f, g)) in
        if add_new_clauses then
          (case new_var s of
             (x, s1) \<Rightarrow>
               let s2 = (if pos_pol polarity
                         then add_clauses [[- x, f], [- x, g]] s1 else s1);
                   s3 = (if neg_pol polarity
                         then add_clauses [[x, - f, - g]] s2 else s2)
               in (Lit x, s3))
        else
          (Deferred (if pos_pol polarity then [[f], [g]] else [])
                (if neg_pol polarity then [[- f, - g]] else []), s))"

definition Or :: "int \<Rightarrow> int \<Rightarrow> polarity \<Rightarrow> bool \<Rightarrow> Clauses \<Rightarrow> val \<times> Clauses" where
  "Or f g polarity add_new_clauses s =
     (if f = TRUE \<or> g = TRUE then (Lit TRUE, s)
      else if f = FALSE then (Lit g, s)
      else if g = FALSE then (Lit f, s)
      else if f = g then (Lit f, s)
      else if f = - g then (Lit TRUE, s)
      else let (f, g) = (if g < f then (g, f) else (f, g)) in
        if add_new_clauses then
          (case new_var s of
             (x, s1) \<Rightarrow>
               let s2 = (if pos_pol polarity
                         then add_clauses [[- x, f, g]] s1 else s1);
                   s3 = (if neg_pol polarity
                         then add_clauses [[x, - f], [x, - g]] s2 else s2)
               in (Lit x, s3))
        else
          (Deferred (if pos_pol polarity then [[f, g]] else [])
                (if neg_pol polarity then [[- f], [- g]] else []), s))"

section \<open>\<^verbatim>\<open>LB_Preprocess\<close>\<close>

text \<open>
  The loop over \<^verbatim>\<open>zip(coeffs, lits)\<close> with its accumulators \<^verbatim>\<open>equation\<close> and
  \<^verbatim>\<open>offset\<close>.
\<close>

fun LB_Preprocess_loop ::
  "(int \<times> int) list \<Rightarrow> (int \<times> int) list \<Rightarrow> int \<Rightarrow> (int \<times> int) list \<times> int" where
  "LB_Preprocess_loop [] equation offset = (equation, offset)"
| "LB_Preprocess_loop ((coeff, lit) # rest) equation offset =
     (if lit = TRUE then LB_Preprocess_loop rest equation (offset + coeff)
      else if lit = FALSE \<or> coeff = 0 then LB_Preprocess_loop rest equation offset
      else if coeff < 0
        then LB_Preprocess_loop rest (equation @ [(- coeff, - lit)]) (offset + coeff)
      else LB_Preprocess_loop rest (equation @ [(coeff, lit)]) offset)"

text \<open>
  \<^verbatim>\<open>sorted(equation)\<close> orders the pairs \<^verbatim>\<open>(coeff, lit)\<close> lexicographically, which is the
  order of \<^typ>\<open>int \<times> int\<close> here. The result is \<^verbatim>\<open>(lits, coeffs, offset)\<close>.
\<close>

definition LB_Preprocess :: "int list \<Rightarrow> int list \<Rightarrow> int list \<times> int list \<times> int" where
  "LB_Preprocess lits coeffs =
     (case LB_Preprocess_loop (zip coeffs lits) [] 0 of
        (equation, offset) \<Rightarrow>
          (map snd (sort equation), map fst (sort equation), offset))"

section \<open>Truth of literals and clauses under an assignment\<close>

text \<open>
  An assignment gives a truth value to every variable number. \<^verbatim>\<open>TRUE\<close> and
  \<^verbatim>\<open>FALSE\<close> are constants; a negative literal is the negation of its variable.
\<close>

definition lit_true :: "(int \<Rightarrow> bool) \<Rightarrow> int \<Rightarrow> bool" where
  "lit_true M l =
     (if l = TRUE then True else if l = FALSE then False
      else if 0 < l then M l else \<not> M (- l))"

definition clause_true :: "(int \<Rightarrow> bool) \<Rightarrow> clause \<Rightarrow> bool" where
  "clause_true M c = list_ex (lit_true M) c"

definition clauses_true :: "(int \<Rightarrow> bool) \<Rightarrow> clause list \<Rightarrow> bool" where
  "clauses_true M cs = list_all (clause_true M) cs"

text \<open>The weighted sum \<open>\<Sum> coeff\<^sub>i \<cdot> [lit\<^sub>i is true]\<close> over \<^verbatim>\<open>zip(coeffs, lits)\<close>.\<close>

definition wsum :: "(int \<Rightarrow> bool) \<Rightarrow> int list \<Rightarrow> int list \<Rightarrow> int" where
  "wsum M lits coeffs =
     sum_list (map (\<lambda>(c, l). if lit_true M l then c else 0) (zip coeffs lits))"

text \<open>The calls a client makes on the driver between a save and a restore.\<close>

datatype driver_op = New_var | Add_clause clause | Add_clauses "clause list" | Assign val

fun run_driver_op :: "driver_op \<Rightarrow> Clauses \<Rightarrow> Clauses" where
  "run_driver_op New_var s = snd (new_var s)"
| "run_driver_op (Add_clause c) s = add_clause c s"
| "run_driver_op (Add_clauses cs) s = add_clauses cs s"
| "run_driver_op (Assign v) s = snd (assign v s)"

fun driver_ops :: "driver_op list \<Rightarrow> Clauses \<Rightarrow> Clauses" where
  "driver_ops [] s = s"
| "driver_ops (x # xs) s = driver_ops xs (run_driver_op x s)"

section \<open>The remaining combinators\<close>

definition Xor :: "int \<Rightarrow> int \<Rightarrow> polarity \<Rightarrow> bool \<Rightarrow> Clauses \<Rightarrow> val \<times> Clauses" where
  "Xor f g polarity add_new_clauses s =
     (if f = FALSE then (Lit g, s)
      else if f = TRUE then (Lit (Not_lit g), s)
      else if g = FALSE then (Lit f, s)
      else if g = TRUE then (Lit (- f), s)
      else if f = g then (Lit FALSE, s)
      else if f = - g then (Lit TRUE, s)
      else let (f, g) = (if g < f then (g, f) else (f, g)) in
        if add_new_clauses then
          (case new_var s of
             (x, s1) \<Rightarrow>
               let s2 = (if pos_pol polarity
                         then add_clauses [[- x, f, g], [- x, - f, - g]] s1 else s1);
                   s3 = (if neg_pol polarity
                         then add_clauses [[x, - f, g], [x, f, - g]] s2 else s2)
               in (Lit x, s3))
        else
          (Deferred (if pos_pol polarity then [[f, g], [- f, - g]] else [])
                    (if neg_pol polarity then [[- f, g], [f, - g]] else []), s))"

definition ITE :: "int \<Rightarrow> int \<Rightarrow> int \<Rightarrow> polarity \<Rightarrow> bool \<Rightarrow> Clauses \<Rightarrow> val \<times> Clauses" where
  "ITE c t f polarity add_new_clauses s =
     (if c = TRUE then (Lit t, s)
      else if c = FALSE then (Lit f, s)
      else if t = TRUE then Or c f polarity add_new_clauses s
      else if t = FALSE then And (- c) f polarity add_new_clauses s
      else if f = FALSE then And c t polarity add_new_clauses s
      else if f = TRUE then Or t (- c) polarity add_new_clauses s
      else if t = c then Or c f polarity add_new_clauses s
      else if t = - c then And (- c) f polarity add_new_clauses s
      else if f = c then And c t polarity add_new_clauses s
      else if f = - c then Or t (- c) polarity add_new_clauses s
      else if t = f then (Lit t, s)
      else if t = - f then Xor c f polarity add_new_clauses s
      else let (t, f, c) = (if t < f then (f, t, - c) else (t, f, c)) in
        if add_new_clauses then
          (case new_var s of
             (x, s1) \<Rightarrow>
               let s2 = (if pos_pol polarity
                         then add_clauses [[- x, - c, t], [- x, c, f], [- x, t, f]] s1 else s1);
                   s3 = (if neg_pol polarity
                         then add_clauses [[x, - c, - t], [x, c, - f], [x, - t, - f]] s2 else s2)
               in (Lit x, s3))
        else
          (Deferred (if pos_pol polarity then [[- c, t], [c, f], [t, f]] else [])
                    (if neg_pol polarity then [[- c, - t], [c, - f], [- t, - f]] else []), s))"

text \<open>
  \<^verbatim>\<open>All\<close> and \<^verbatim>\<open>Any\<close> collect their arguments in a Python \<^verbatim>\<open>set\<close>. The set is a
  duplicate-free list here, in the order of insertion; the order in which CPython
  iterates a set is an implementation detail of its hash table.
\<close>

definition set_add :: "int \<Rightarrow> int list \<Rightarrow> int list" where
  "set_add v vals = (if v \<in> set vals then vals else vals @ [v])"

text \<open>
  The loop of \<^verbatim>\<open>All\<close>. Its argument may be a lazy \<^verbatim>\<open>map\<close> whose function changes
  the driver (\<^verbatim>\<open>Combine\<close> passes \<^verbatim>\<open>map(self.assign, args)\<close>), so every item is
  produced by \<open>gen\<close> when the loop reaches it, and an early \<^verbatim>\<open>return FALSE\<close> leaves
  the remaining items untouched. The result \<open>None\<close> stands for that early return.
\<close>

fun All_loop ::
  "('a \<Rightarrow> Clauses \<Rightarrow> int \<times> Clauses) \<Rightarrow> 'a list \<Rightarrow> int list \<Rightarrow> Clauses
     \<Rightarrow> int list option \<times> Clauses" where
  "All_loop gen [] vals s = (Some vals, s)"
| "All_loop gen (a # rest) vals s =
     (case gen a s of
        (v, s1) \<Rightarrow>
          if v = TRUE then All_loop gen rest vals s1
          else if v = FALSE \<or> - v \<in> set vals then (None, s1)
          else All_loop gen rest (set_add v vals) s1)"

definition All_gen ::
  "('a \<Rightarrow> Clauses \<Rightarrow> int \<times> Clauses) \<Rightarrow> 'a list \<Rightarrow> polarity \<Rightarrow> Clauses \<Rightarrow> val \<times> Clauses" where
  "All_gen gen iter polarity s =
     (case All_loop gen iter [] s of
        (None, s') \<Rightarrow> (Lit FALSE, s')
      | (Some vals, s') \<Rightarrow>
          (if length vals = 0 then Lit TRUE
           else if length vals = 1 then Lit (hd vals)
           else Deferred (if pos_pol polarity then map (\<lambda>v. [v]) vals else [])
                         (if neg_pol polarity then [map uminus vals] else []), s'))"

text \<open>\<^verbatim>\<open>All\<close> on a plain list of literals: the items are there already.\<close>

definition All :: "int list \<Rightarrow> polarity \<Rightarrow> Clauses \<Rightarrow> val \<times> Clauses" where
  "All iter polarity s = All_gen (\<lambda>v s'. (v, s')) iter polarity s"

fun Any_loop :: "int list \<Rightarrow> int list \<Rightarrow> int list option" where
  "Any_loop [] vals = Some vals"
| "Any_loop (v # rest) vals =
     (if v = FALSE then Any_loop rest vals
      else if v = TRUE \<or> - v \<in> set vals then None
      else Any_loop rest (set_add v vals))"

definition Any :: "int list \<Rightarrow> polarity \<Rightarrow> val" where
  "Any iter polarity =
     (case Any_loop iter [] of
        None \<Rightarrow> Lit TRUE
      | Some vals \<Rightarrow>
          if length vals = 0 then Lit FALSE
          else if length vals = 1 then Lit (hd vals)
          else Deferred (if pos_pol polarity then [vals] else [])
                        (if neg_pol polarity then map (\<lambda>v. [- v]) vals else []))"

definition is_tuple :: "val \<Rightarrow> bool" where
  "is_tuple v = (case v of Deferred p n \<Rightarrow> True | Lit l \<Rightarrow> False)"

definition pval_of :: "val \<Rightarrow> clause list" where
  "pval_of v = (case v of Deferred p n \<Rightarrow> p | Lit l \<Rightarrow> [])"

definition nval_of :: "val \<Rightarrow> clause list" where
  "nval_of v = (case v of Deferred p n \<Rightarrow> n | Lit l \<Rightarrow> [])"

definition Combine :: "val list \<Rightarrow> polarity \<Rightarrow> Clauses \<Rightarrow> val \<times> Clauses" where
  "Combine args polarity s =
     (if list_ex (\<lambda>v. v = Lit FALSE) args then (Lit FALSE, s)
      else let args = filter (\<lambda>v. v \<noteq> Lit TRUE) args; nv = length args in
        if nv = 0 then (Lit TRUE, s)
        else if nv = 1 then (hd args, s)
        else if list_all is_tuple args
          then (Deferred (concat (map pval_of args)) (concat (map nval_of args)), s)
        else All_gen assign args polarity s)"

text \<open>\<^verbatim>\<open>itertools.combinations(xs, 2)\<close>.\<close>

fun combinations2 :: "'a list \<Rightarrow> ('a \<times> 'a) list" where
  "combinations2 [] = []"
| "combinations2 (x # xs) = map (\<lambda>y. (x, y)) xs @ combinations2 xs"

definition AtMostOne_NSQ :: "int list \<Rightarrow> polarity \<Rightarrow> Clauses \<Rightarrow> val \<times> Clauses" where
  "AtMostOne_NSQ vals polarity s =
     (let combos = map (\<lambda>(v1, v2). fst (Or v1 v2 polarity False s))
                     (combinations2 (map Not_lit vals))
      in Combine combos polarity s)"

definition ExactlyOne_NSQ :: "int list \<Rightarrow> polarity \<Rightarrow> Clauses \<Rightarrow> val \<times> Clauses" where
  "ExactlyOne_NSQ vals polarity s =
     (case AtMostOne_NSQ vals polarity s of
        (v1, s1) \<Rightarrow> let v2 = Any vals polarity in Combine [v1, v2] polarity s1)"

section \<open>The pseudo-boolean encoder\<close>

text \<open>
  Python indexing \<^verbatim>\<open>xs[i]\<close>: a negative index counts from the end, and an index outside
  \<open>-len .. len - 1\<close> raises \<^verbatim>\<open>IndexError\<close> (\<open>None\<close> here).
\<close>

definition py_index :: "'a list \<Rightarrow> int \<Rightarrow> 'a option" where
  "py_index xs i =
     (let n = int (length xs) in
      if 0 \<le> i \<and> i < n then Some (xs ! nat i)
      else if - n \<le> i \<and> i < 0 then Some (xs ! nat (n + i))
      else None)"

type_synonym key = "int \<times> int \<times> int"

text \<open>
  One pass through the body of the \<^verbatim>\<open>while call_stack:\<close> loop of \<^verbatim>\<open>BDD\<close>, for
  the key \<^verbatim>\<open>call_stack[-1]\<close> and the memo dictionary \<^verbatim>\<open>ret\<close>. The pass ends in
  \<^verbatim>\<open>ret[call_stack_pop()] = v\<close> (\<open>Pop\<close>, with the driver as \<^verbatim>\<open>ITE\<close> left it), in
  \<^verbatim>\<open>call_stack_append(key)\<close> (\<open>Push\<close>), or in an exception. Every value that
  \<^verbatim>\<open>ITE\<close> returns under \<^verbatim>\<open>add_new_clauses=True\<close> is a literal; a tuple in the memo would
  make \<^verbatim>\<open>ITE\<close> negate or compare a tuple, a \<^verbatim>\<open>TypeError\<close>.
\<close>

datatype bdd_next = Pop val Clauses | Push key | Raise error

definition BDD_body ::
  "int list \<Rightarrow> int list \<Rightarrow> int \<Rightarrow> int \<Rightarrow> polarity \<Rightarrow> key \<Rightarrow> (key \<rightharpoonup> val) \<Rightarrow> Clauses \<Rightarrow> bdd_next" where
  "BDD_body lits coeffs lo hi polarity k ret s =
     (case k of
        (ndx, csum, rtotal) \<Rightarrow>
          let lower_limit = lo - csum; upper_limit = hi - csum in
          if lower_limit \<le> 0 \<and> upper_limit \<ge> rtotal then Pop (Lit TRUE) s
          else if lower_limit > rtotal \<or> upper_limit < 0 then Pop (Lit FALSE) s
          else
            (case py_index lits ndx of
               None \<Rightarrow> Raise IndexError
             | Some LA \<Rightarrow>
                 (case py_index coeffs ndx of
                    None \<Rightarrow> Raise IndexError
                  | Some LC \<Rightarrow>
                      let ndx' = ndx - 1; rtotal' = rtotal - LC;
                          hi_key = (ndx', if LA < 0 then csum else csum + LC, rtotal')
                      in
                      (case ret hi_key of
                         None \<Rightarrow> Push hi_key
                       | Some thi \<Rightarrow>
                           let lo_key = (ndx', if LA < 0 then csum + LC else csum, rtotal') in
                           (case ret lo_key of
                              None \<Rightarrow> Push lo_key
                            | Some tlo \<Rightarrow>
                                (case (thi, tlo) of
                                   (Lit t, Lit f) \<Rightarrow>
                                     (case ITE \<bar>LA\<bar> t f polarity True s of
                                        (v, s') \<Rightarrow> Pop v s')
                                 | _ \<Rightarrow> Raise TypeError))))))"

text \<open>
  The loop itself. The stack is a list whose head is \<^verbatim>\<open>call_stack[-1]\<close>. The loop is
  not structurally recursive; a run that never leaves it has the value \<open>None\<close>.
\<close>

partial_function (option) BDD_loop ::
  "int list \<Rightarrow> int list \<Rightarrow> int \<Rightarrow> int \<Rightarrow> polarity \<Rightarrow> key list \<Rightarrow> (key \<rightharpoonup> val) \<Rightarrow> Clauses
     \<Rightarrow> (error + (key \<rightharpoonup> val) \<times> Clauses) option" where
  "BDD_loop lits coeffs lo hi polarity call_stack ret s =
     (case call_stack of
        [] \<Rightarrow> Some (Inr (ret, s))
      | k # rest \<Rightarrow>
          (case BDD_body lits coeffs lo hi polarity k ret s of
             Pop v s' \<Rightarrow> BDD_loop lits coeffs lo hi polarity rest (ret(k \<mapsto> v)) s'
           | Push k' \<Rightarrow> BDD_loop lits coeffs lo hi polarity (k' # call_stack) ret s
           | Raise e \<Rightarrow> Some (Inl e)))"

declare BDD_loop.simps [code]

definition BDD ::
  "int list \<Rightarrow> int list \<Rightarrow> nat \<Rightarrow> int \<Rightarrow> int \<Rightarrow> polarity \<Rightarrow> Clauses
     \<Rightarrow> (error + val \<times> Clauses) option" where
  "BDD lits coeffs nterms lo hi polarity s =
     (let rtotal = sum_list (take nterms coeffs);
          target = (int nterms - 1, 0, rtotal)
      in case BDD_loop lits coeffs lo hi polarity [target] Map.empty s of
           None \<Rightarrow> None
         | Some (Inl e) \<Rightarrow> Some (Inl e)
         | Some (Inr (ret, s')) \<Rightarrow>
             (case ret target of
                None \<Rightarrow> Some (Inl KeyError)
              | Some v \<Rightarrow> Some (Inr (v, s'))))"

definition LinearBound ::
  "int list \<Rightarrow> int list \<Rightarrow> int \<Rightarrow> int \<Rightarrow> bool \<Rightarrow> polarity \<Rightarrow> Clauses
     \<Rightarrow> (error + val \<times> Clauses) option" where
  "LinearBound lits0 coeffs0 lo0 hi0 preprocess polarity s =
     (let (lits, coeffs, lo, hi) =
            (if preprocess
             then (case LB_Preprocess lits0 coeffs0 of
                     (lits, coeffs, offset) \<Rightarrow> (lits, coeffs, lo0 - offset, hi0 - offset))
             else (lits0, coeffs0, lo0, hi0));
          nterms = length coeffs;
          nprune = (if nterms \<noteq> 0 \<and> last coeffs > hi
                    then length (filter (\<lambda>c. c > hi) coeffs) else 0);
          nterms = nterms - nprune;
          rtotal = sum_list (take nterms coeffs);
          lo = (if preprocess then max lo 0 else lo);
          hi = (if preprocess then min hi rtotal else hi)
      in
      if lo > hi then Some (Inr (Lit FALSE, s))
      else
        (case (if nterms = 0 then Some (Inr (Lit (if lo = 0 then TRUE else FALSE), s))
               else BDD lits coeffs nterms lo hi polarity s) of
           None \<Rightarrow> None
         | Some (Inl e) \<Rightarrow> Some (Inl e)
         | Some (Inr (res, s1)) \<Rightarrow>
             if nprune \<noteq> 0 then
               (case All (map uminus (drop nterms lits)) polarity s1 of
                  (prune, s2) \<Rightarrow> Some (Inr (Combine [res, prune] polarity s2)))
             else Some (Inr (res, s1))))"

definition AtMostOne_BDD :: "int list \<Rightarrow> polarity \<Rightarrow> Clauses \<Rightarrow> (error + val \<times> Clauses) option" where
  "AtMostOne_BDD vals polarity s =
     LinearBound vals (replicate (length vals) 1) 0 1 True polarity s"

definition ExactlyOne_BDD :: "int list \<Rightarrow> polarity \<Rightarrow> Clauses \<Rightarrow> (error + val \<times> Clauses) option" where
  "ExactlyOne_BDD vals polarity s =
     LinearBound vals (replicate (length vals) 1) 1 1 True polarity s"

section \<open>\<^verbatim>\<open>Eval\<close>, \<^verbatim>\<open>Require\<close>, \<^verbatim>\<open>Prevent\<close>\<close>

text \<open>
  \<^verbatim>\<open>Eval(func, args, polarity)\<close> calls \<^verbatim>\<open>func(*args, polarity=polarity)\<close>, where
  \<^verbatim>\<open>func\<close> is a combinator method of the driver. A combinator together with its
  arguments is a value of \<open>comb\<close>; \<open>call\<close> is the call itself.
\<close>

datatype comb =
    Comb_Not int
  | Comb_And int int
  | Comb_Or int int
  | Comb_Xor int int
  | Comb_ITE int int int
  | Comb_All "int list"
  | Comb_Any "int list"
  | Comb_Combine "val list"
  | Comb_AtMostOne_NSQ "int list"
  | Comb_AtMostOne_BDD "int list"
  | Comb_ExactlyOne_NSQ "int list"
  | Comb_ExactlyOne_BDD "int list"
  | Comb_LinearBound "int list" "int list" int int bool

fun call :: "comb \<Rightarrow> polarity \<Rightarrow> Clauses \<Rightarrow> (error + val \<times> Clauses) option" where
  "call (Comb_Not x) polarity s = Some (Inr (Lit (Not_lit x), s))"
| "call (Comb_And f g) polarity s = Some (Inr (And f g polarity False s))"
| "call (Comb_Or f g) polarity s = Some (Inr (Or f g polarity False s))"
| "call (Comb_Xor f g) polarity s = Some (Inr (Xor f g polarity False s))"
| "call (Comb_ITE c t f) polarity s = Some (Inr (ITE c t f polarity False s))"
| "call (Comb_All iter) polarity s = Some (Inr (All iter polarity s))"
| "call (Comb_Any iter) polarity s = Some (Inr (Any iter polarity, s))"
| "call (Comb_Combine args) polarity s = Some (Inr (Combine args polarity s))"
| "call (Comb_AtMostOne_NSQ vals) polarity s = Some (Inr (AtMostOne_NSQ vals polarity s))"
| "call (Comb_AtMostOne_BDD vals) polarity s = AtMostOne_BDD vals polarity s"
| "call (Comb_ExactlyOne_NSQ vals) polarity s = Some (Inr (ExactlyOne_NSQ vals polarity s))"
| "call (Comb_ExactlyOne_BDD vals) polarity s = ExactlyOne_BDD vals polarity s"
| "call (Comb_LinearBound lits coeffs lo hi preprocess) polarity s =
     LinearBound lits coeffs lo hi preprocess polarity s"

definition Eval :: "comb \<Rightarrow> bool \<Rightarrow> Clauses \<Rightarrow> (error + Clauses) option" where
  "Eval func polarity s =
     (let saved_state = save_state s in
      case call func (Some polarity) s of
        None \<Rightarrow> None
      | Some (Inl e) \<Rightarrow> Some (Inl e)
      | Some (Inr (vals, s1)) \<Rightarrow>
          Some (Inr
            (case vals of
               Deferred pval nval \<Rightarrow> add_clauses nval (add_clauses pval s1)
             | Lit v \<Rightarrow>
                 if v \<noteq> TRUE \<and> v \<noteq> FALSE
                 then add_clause [if polarity then v else - v] s1
                 else (restore_state saved_state s1)
                        \<lparr>unsat := unsat s1 \<or> ((v = TRUE) \<noteq> polarity)\<rparr>)))"

definition Prevent :: "comb \<Rightarrow> Clauses \<Rightarrow> (error + Clauses) option" where
  "Prevent func s = Eval func False s"

definition Require :: "comb \<Rightarrow> Clauses \<Rightarrow> (error + Clauses) option" where
  "Require func s = Eval func True s"

section \<open>\<^verbatim>\<open>sat\<close>\<close>

text \<open>
  The SAT backend (\<^verbatim>\<open>pycosat\<close> by default) is outside the repository. It is a
  parameter: a function from the clause list, the number of variables and the
  propagation limit to a solution or \<open>None\<close>.
\<close>

type_synonym backend = "clause list \<Rightarrow> int \<Rightarrow> int \<Rightarrow> int list option"

definition run_sat :: "backend \<Rightarrow> int \<Rightarrow> int \<Rightarrow> Clauses \<Rightarrow> int list option \<times> Clauses" where
  "run_sat run nvars limit s =
     (run (as_list s) nvars limit, s\<lparr>backend_calls := backend_calls s + 1\<rparr>)"

fun preproc_clause :: "clause \<Rightarrow> clause" where
  "preproc_clause [] = []"
| "preproc_clause (c # cc) =
     (if c = FALSE then preproc_clause cc
      else if c = TRUE then [c]
      else c # preproc_clause cc)"

fun preproc :: "clause list \<Rightarrow> clause list" where
  "preproc [] = []"
| "preproc (cc # eqs) =
     (let cc' = preproc_clause cc in
      if cc' = [] then [cc']
      else if last cc' \<noteq> TRUE then cc' # preproc eqs
      else preproc eqs)"

text \<open>
  \<^verbatim>\<open>additional\<close> is \<^verbatim>\<open>None\<close> or a list of clauses; \<^verbatim>\<open>None\<close> and the empty list are
  both false for \<^verbatim>\<open>if additional:\<close>.
\<close>

definition sat ::
  "backend \<Rightarrow> clause list option \<Rightarrow> bool \<Rightarrow> int \<Rightarrow> Clauses \<Rightarrow> int list option \<times> Clauses" where
  "sat run additional includeIf limit s =
     (if unsat s then (None, s)
      else if m s = 0 then (Some [], s)
      else
        let saved_state = save_state s;
            additional = (case additional of
                            None \<Rightarrow> []
                          | Some a \<Rightarrow> if a \<noteq> [] then preproc a else [])
        in
        if additional \<noteq> [] \<and> last additional = [] then (None, s)
        else
          let s1 = (if additional \<noteq> [] then add_clauses additional s else s) in
          case run_sat run (m s1) limit s1 of
            (solution, s2) \<Rightarrow>
              if additional \<noteq> [] \<and> (solution = None \<or> \<not> includeIf)
              then (solution, restore_state saved_state s2)
              else (solution, s2))"

section \<open>\<^verbatim>\<open>minimize\<close>\<close>

text \<open>
  \<^verbatim>\<open>objective_dict = {a: c for c, a in zip(coeffs, lits)}\<close>: where a literal occurs
  twice, the later coefficient stays.
\<close>

definition objective_dict :: "int list \<Rightarrow> int list \<Rightarrow> (int \<rightharpoonup> int)" where
  "objective_dict lits coeffs = map_of (rev (zip lits coeffs))"

definition dict_get :: "(int \<rightharpoonup> int) \<Rightarrow> int \<Rightarrow> int" where
  "dict_get d k = (case d k of None \<Rightarrow> 0 | Some c \<Rightarrow> c)"

text \<open>Python's \<^verbatim>\<open>max\<close> of an empty sequence raises \<^verbatim>\<open>ValueError\<close>.\<close>

definition py_max :: "int list \<Rightarrow> error + int" where
  "py_max xs = (case xs of [] \<Rightarrow> Inl ValueError | x # rest \<Rightarrow> Inr (fold max rest x))"

definition peak_val :: "int list \<Rightarrow> (int \<rightharpoonup> int) \<Rightarrow> error + int" where
  "peak_val sol d = py_max (map (dict_get d) sol)"

definition sum_val :: "int list \<Rightarrow> (int \<rightharpoonup> int) \<Rightarrow> int" where
  "sum_val sol d = sum_list (map (dict_get d) sol)"

definition objval :: "bool \<Rightarrow> int list \<Rightarrow> (int \<rightharpoonup> int) \<Rightarrow> error + int" where
  "objval peak sol d = (if peak then peak_val sol d else Inr (sum_val sol d))"

text \<open>The variables of the \<^verbatim>\<open>while True:\<close> loop that change from one pass to the next.\<close>

record bisection =
  b_lo :: int
  b_hi :: int
  b_try0 :: "int option"
  b_bestsol :: "int list"
  b_bestval :: int
  b_driver :: Clauses

datatype 'a step = Break 'a | Continue 'a

text \<open>
  One pass through the body of the loop; \<open>Break\<close> is a \<^verbatim>\<open>break\<close>. \<^verbatim>\<open>self.sat()\<close> is
  called without arguments: no additional clauses, \<^verbatim>\<open>includeIf=False\<close>, \<^verbatim>\<open>limit=0\<close>.
\<close>

definition bisect_step ::
  "backend \<Rightarrow> bool \<Rightarrow> int list \<Rightarrow> int list \<Rightarrow> (int \<rightharpoonup> int) \<Rightarrow> int \<Rightarrow> int \<Rightarrow> bisection
     \<Rightarrow> (error + bisection step) option" where
  "bisect_step run peak lits coeffs d m_orig saved_state st =
     (let mid = (case b_try0 st of None \<Rightarrow> (b_lo st + b_hi st) div 2 | Some t \<Rightarrow> t);
          constrained =
            (if peak then
               (let prevent = map snd (filter (\<lambda>(c, a). c > mid) (zip coeffs lits));
                    require = map snd (filter (\<lambda>(c, a). b_lo st \<le> c \<and> c \<le> mid)
                                         (zip coeffs lits))
                in case Prevent (Comb_Any prevent) (b_driver st) of
                     None \<Rightarrow> None
                   | Some (Inl e) \<Rightarrow> Some (Inl e)
                   | Some (Inr s1) \<Rightarrow>
                       if require \<noteq> [] then Require (Comb_Any require) s1
                       else Some (Inr s1))
             else Require (Comb_LinearBound lits coeffs (b_lo st) mid False) (b_driver st))
      in case constrained of
           None \<Rightarrow> None
         | Some (Inl e) \<Rightarrow> Some (Inl e)
         | Some (Inr s2) \<Rightarrow>
             (case sat run None False 0 s2 of
                (newsol, s3) \<Rightarrow>
                  let reset = (\<lambda>st'.
                        let s4 = s3\<lparr>m := m_orig\<rparr>;
                            s5 = (if save_state s4 \<noteq> saved_state
                                  then restore_state saved_state s4 else s4)
                        in st'\<lparr>b_try0 := None, b_driver := s5\<lparr>unsat := False\<rparr>\<rparr>)
                  in
                  (case newsol of
                     None \<Rightarrow>
                       let st1 = st\<lparr>b_lo := mid + 1, b_driver := s3\<rparr> in
                       if b_lo st1 > b_hi st1 then Some (Inr (Break st1))
                       else Some (Inr (Continue (reset st1)))
                   | Some sol \<Rightarrow>
                       let done = (b_lo st = mid) in
                       (case objval peak sol d of
                          Inl e \<Rightarrow> Some (Inl e)
                        | Inr v \<Rightarrow>
                            let st1 = st\<lparr>b_bestsol := sol, b_bestval := v, b_hi := v,
                                         b_driver := s3\<rparr>
                            in if done then Some (Inr (Break st1))
                               else Some (Inr (Continue (reset st1)))))))"

partial_function (option) bisect ::
  "backend \<Rightarrow> bool \<Rightarrow> int list \<Rightarrow> int list \<Rightarrow> (int \<rightharpoonup> int) \<Rightarrow> int \<Rightarrow> int \<Rightarrow> bisection
     \<Rightarrow> (error + bisection) option" where
  "bisect run peak lits coeffs d m_orig saved_state st =
     (case bisect_step run peak lits coeffs d m_orig saved_state st of
        None \<Rightarrow> None
      | Some (Inl e) \<Rightarrow> Some (Inl e)
      | Some (Inr (Break st')) \<Rightarrow> Some (Inr st')
      | Some (Inr (Continue st')) \<Rightarrow> bisect run peak lits coeffs d m_orig saved_state st')"

declare bisect.simps [code]

text \<open>
  One pass of \<^verbatim>\<open>for peak in ...\<close> up to the end of its \<^verbatim>\<open>while\<close> loop: the state
  with which the loop starts, and the loop.
\<close>

definition stage_init ::
  "bool \<Rightarrow> bool \<Rightarrow> int list \<Rightarrow> int list \<Rightarrow> int \<Rightarrow> int option \<Rightarrow> int list \<Rightarrow> Clauses
     \<Rightarrow> error + bisection" where
  "stage_init trymax peak lits coeffs lo try0 bestsol s =
     (case objval peak bestsol (objective_dict lits coeffs) of
        Inl e \<Rightarrow> Inl e
      | Inr bestval \<Rightarrow>
          Inr \<lparr>b_lo = lo, b_hi = bestval,
               b_try0 = (if trymax \<and> \<not> peak then Some (bestval - 1) else try0),
               b_bestsol = bestsol, b_bestval = bestval, b_driver = s\<rparr>)"

definition stage ::
  "backend \<Rightarrow> bool \<Rightarrow> bool \<Rightarrow> int list \<Rightarrow> int list \<Rightarrow> int \<Rightarrow> int option \<Rightarrow> int list \<Rightarrow> Clauses
     \<Rightarrow> (error + bisection) option" where
  "stage run trymax peak lits coeffs lo try0 bestsol s =
     (case stage_init trymax peak lits coeffs lo try0 bestsol s of
        Inl e \<Rightarrow> Some (Inl e)
      | Inr st \<Rightarrow>
          bisect run peak lits coeffs (objective_dict lits coeffs) (m s) (save_state s) st)"

text \<open>
  \<^verbatim>\<open>minimize\<close> returns \<^verbatim>\<open>(bestsol, bestval)\<close>. The \<^verbatim>\<open>for\<close> loop runs over
  \<^verbatim>\<open>(True, False)\<close> when \<^verbatim>\<open>maxval > 1\<close> and over \<^verbatim>\<open>(False,)\<close> otherwise.
\<close>

definition minimize ::
  "backend \<Rightarrow> int list \<Rightarrow> int list \<Rightarrow> int list option \<Rightarrow> bool \<Rightarrow> Clauses
     \<Rightarrow> (error + (int list option \<times> int) \<times> Clauses) option" where
  "minimize run lits0 coeffs0 bestsol0 trymax s0 =
     (case (if bestsol0 = None \<or> int (length (the bestsol0)) < m s0
            then sat run None False 0 s0 else (bestsol0, s0)) of
        (bestsol1, s) \<Rightarrow>
          if bestsol1 = None \<or> unsat s
            then Some (Inr ((bestsol1,
                   if coeffs0 \<noteq> [] then sum_list (map abs coeffs0) + 1 else 1), s))
          else if coeffs0 = [] then Some (Inr ((bestsol1, 0), s))
          else
            (case LB_Preprocess lits0 coeffs0 of
               (lits, coeffs, offset) \<Rightarrow>
                 (case py_max coeffs of
                    Inl e \<Rightarrow> Some (Inl e)
                  | Inr maxval \<Rightarrow>
                      let bestsol = the bestsol1;
                          sum_stage = (\<lambda>lits coeffs lo try0 bestsol s.
                            case stage run trymax False lits coeffs lo try0 bestsol s of
                              None \<Rightarrow> None
                            | Some (Inl e) \<Rightarrow> Some (Inl e)
                            | Some (Inr st) \<Rightarrow>
                                Some (Inr ((Some (b_bestsol st), b_bestval st), b_driver st)))
                      in
                      if maxval > 1 then
                        (case stage run trymax True lits coeffs 0 (Some 0) bestsol s of
                           None \<Rightarrow> None
                         | Some (Inl e) \<Rightarrow> Some (Inl e)
                         | Some (Inr st) \<Rightarrow>
                             if b_bestval st = 0
                             then Some (Inr ((Some (b_bestsol st), b_bestval st), b_driver st))
                             else
                               sum_stage
                                 (map snd (filter (\<lambda>(c, a). c \<le> b_bestval st) (zip coeffs lits)))
                                 (filter (\<lambda>c. c \<le> b_bestval st) coeffs)
                                 (b_bestval st)
                                 (Some (sum_val (b_bestsol st) (objective_dict lits coeffs)))
                                 (b_bestsol st) (b_driver st))
                      else sum_stage lits coeffs 0 (Some 0) bestsol s)))"

section \<open>A reference backend and the contract of a backend\<close>

text \<open>
  The solver behind \<^verbatim>\<open>_SatSolver.run\<close> is an external library. For concrete runs the
  backend is an exhaustive search over the signed assignments \<open>[\<plusminus>1, \<dots>, \<plusminus>n]\<close> of the
  variables \<open>1 .. n\<close>, which is the form in which \<^verbatim>\<open>pycosat\<close> returns a solution.
\<close>

fun assignments :: "nat \<Rightarrow> int list list" where
  "assignments 0 = [[]]"
| "assignments (Suc n) =
     concat (map (\<lambda>a. [a @ [- int (Suc n)], a @ [int (Suc n)]]) (assignments n))"

definition satisfies :: "int list \<Rightarrow> clause list \<Rightarrow> bool" where
  "satisfies sol cs = list_all (\<lambda>c. list_ex (\<lambda>l. l \<in> set sol) c) cs"

definition enum_backend :: backend where
  "enum_backend cs n limit = find (\<lambda>sol. satisfies sol cs) (assignments (nat n))"

text \<open>
  What the driver expects of a backend: a solution is a signed assignment of the
  variables \<open>1 .. n\<close> that satisfies every clause, and without a propagation limit
  (\<^verbatim>\<open>limit=0\<close>) the answer \<open>None\<close> means that there is no such assignment.
\<close>

definition is_assignment :: "int \<Rightarrow> int list \<Rightarrow> bool" where
  "is_assignment n sol \<longleftrightarrow> map abs sol = [1 .. n]"

definition is_solution :: "clause list \<Rightarrow> int \<Rightarrow> int list \<Rightarrow> bool" where
  "is_solution cs n sol \<longleftrightarrow> is_assignment n sol \<and> satisfies sol cs"

definition backend_ok :: "backend \<Rightarrow> bool" where
  "backend_ok run \<longleftrightarrow>
     (\<forall>cs n limit sol. run cs n limit = Some sol \<longrightarrow> is_solution cs n sol)
     \<and> (\<forall>cs n sol. is_solution cs n sol \<longrightarrow> run cs n 0 \<noteq> None)"

text \<open>A client's calls on a driver, run in sequence; the answers of \<^verbatim>\<open>sat\<close> are collected.\<close>

datatype client_op =
    Call_sat "clause list option" bool int
  | Call_driver driver_op
  | Call_Eval comb bool

fun run_client ::
  "backend \<Rightarrow> client_op list \<Rightarrow> Clauses \<Rightarrow> int list option list \<times> Clauses" where
  "run_client run [] s = ([], s)"
| "run_client run (Call_sat additional includeIf limit # ops) s =
     (case sat run additional includeIf limit s of
        (r, s') \<Rightarrow> (case run_client run ops s' of (rs, s'') \<Rightarrow> (r # rs, s'')))"
| "run_client run (Call_driver x # ops) s = run_client run ops (run_driver_op x s)"
| "run_client run (Call_Eval func polarity # ops) s =
     (case Eval func polarity s of
        Some (Inr s') \<Rightarrow> run_client run ops s'
      | _ \<Rightarrow> ([], s))"

section \<open>Auxiliary notions for the proofs\<close>

text \<open>The weighted sum over a list of pairs \<^verbatim>\<open>(coeff, lit)\<close>.\<close>

definition psum :: "(int \<Rightarrow> bool) \<Rightarrow> (int \<times> int) list \<Rightarrow> int" where
  "psum M ps = sum_list (map (\<lambda>(c, l). if lit_true M l then c else 0) ps)"

definition normal_pair :: "int \<times> int \<Rightarrow> bool" where
  "normal_pair p \<longleftrightarrow> 0 < fst p \<and> snd p \<noteq> TRUE \<and> snd p \<noteq> FALSE"

text \<open>
  \<open>extends s s'\<close>: from \<open>s\<close> to \<open>s'\<close> clauses were only appended, the counter did not go
  down, and nothing else changed.
\<close>

definition extends :: "Clauses \<Rightarrow> Clauses \<Rightarrow> bool" where
  "extends s s' \<longleftrightarrow>
     (\<exists>ext. as_list s' = as_list s @ ext) \<and> unsat s' = unsat s
     \<and> backend_calls s' = backend_calls s \<and> m s \<le> m s'"


text \<open>The clauses appended on the way from \<open>s\<close> to \<open>s'\<close>.\<close>

definition ext_of :: "Clauses \<Rightarrow> Clauses \<Rightarrow> clause list" where
  "ext_of s s' = drop (length (as_list s)) (as_list s')"

text \<open>
  \<open>encodes p s s' x \<phi>\<close>: in every model of the clauses appended between \<open>s\<close> and \<open>s'\<close>,
  the literal \<open>x\<close> implies \<open>\<phi>\<close> when the polarity asks for the positive direction, and
  \<open>\<phi>\<close> implies \<open>x\<close> when it asks for the negative one.
\<close>

definition encodes ::
  "polarity \<Rightarrow> Clauses \<Rightarrow> Clauses \<Rightarrow> int \<Rightarrow> ((int \<Rightarrow> bool) \<Rightarrow> bool) \<Rightarrow> bool" where
  "encodes p s s' x \<phi> \<longleftrightarrow>
     (\<forall>M. clauses_true M (ext_of s s') \<longrightarrow>
        (pos_pol p \<longrightarrow> lit_true M x \<longrightarrow> \<phi> M) \<and> (neg_pol p \<longrightarrow> \<phi> M \<longrightarrow> lit_true M x))"

text \<open>Result of a combinator called with add_new_clauses = True\<close>

definition lit_result ::
  "polarity \<Rightarrow> Clauses \<Rightarrow> val \<times> Clauses \<Rightarrow> ((int \<Rightarrow> bool) \<Rightarrow> bool) \<Rightarrow> bool" where
  "lit_result p s r \<phi> \<longleftrightarrow>
     (\<exists>x. fst r = Lit x \<and> x \<noteq> 0 \<and> extends s (snd r) \<and> m (snd r) \<le> m s + 1
          \<and> encodes p s (snd r) x \<phi>)"

definition lit_ok :: "int \<Rightarrow> int \<Rightarrow> bool" where
  "lit_ok n l \<longleftrightarrow> l \<noteq> 0 \<and> (\<bar>l\<bar> \<le> n \<or> l = TRUE \<or> l = FALSE)"

definition ext_ok :: "Clauses \<Rightarrow> Clauses \<Rightarrow> bool" where
  "ext_ok s s' \<longleftrightarrow>
     (\<forall>c\<in>set (ext_of s s'). \<forall>l\<in>set c. l \<noteq> 0 \<and> \<bar>l\<bar> \<le> m s')
     \<and> (\<forall>M. \<exists>M'. (\<forall>v. v \<le> m s \<longrightarrow> M' v = M v) \<and> clauses_true M' (ext_of s s'))"

text \<open>Result of a combinator called with add_new_clauses = True, second part\<close>

definition fresh_ok :: "Clauses \<Rightarrow> val \<times> Clauses \<Rightarrow> bool" where
  "fresh_ok s r \<longleftrightarrow> (\<exists>x. fst r = Lit x \<and> lit_ok (m (snd r)) x) \<and> ext_ok s (snd r)"

definition wf_key :: "nat \<Rightarrow> int list \<Rightarrow> key \<Rightarrow> bool" where
  "wf_key n coeffs k \<longleftrightarrow>
     (case k of (ndx, csum, rtotal) \<Rightarrow>
        - 1 \<le> ndx \<and> ndx < int n \<and> rtotal = sum_list (take (nat (ndx + 1)) coeffs)
        \<and> 0 \<le> csum \<and> csum + rtotal \<le> sum_list (take n coeffs))"

definition key_sem :: "int list \<Rightarrow> int list \<Rightarrow> int \<Rightarrow> int \<Rightarrow> key \<Rightarrow> (int \<Rightarrow> bool) \<Rightarrow> bool" where
  "key_sem lits coeffs lo hi k M \<longleftrightarrow>
     (case k of (ndx, csum, rtotal) \<Rightarrow>
        lo \<le> csum + wsum M (take (nat (ndx + 1)) lits) (take (nat (ndx + 1)) coeffs)
        \<and> csum + wsum M (take (nat (ndx + 1)) lits) (take (nat (ndx + 1)) coeffs) \<le> hi)"

definition key_universe :: "nat \<Rightarrow> int list \<Rightarrow> key set" where
  "key_universe n coeffs =
     (\<lambda>(i, c). (i, c, sum_list (take (nat (i + 1)) coeffs)))
       ` ({- 1 ..< int n} \<times> {0 .. sum_list (take n coeffs)})"

definition bdd_pre :: "int list \<Rightarrow> int list \<Rightarrow> nat \<Rightarrow> Clauses \<Rightarrow> bool" where
  "bdd_pre lits coeffs n s0 \<longleftrightarrow>
     n \<le> length lits \<and> n \<le> length coeffs \<and> 0 \<le> m s0
     \<and> (\<forall>i<n. 0 \<le> coeffs ! i \<and> lit_ok (m s0) (lits ! i))"

definition bdd_inv ::
  "int list \<Rightarrow> int list \<Rightarrow> int \<Rightarrow> int \<Rightarrow> polarity \<Rightarrow> nat \<Rightarrow> Clauses
     \<Rightarrow> key list \<Rightarrow> (key \<rightharpoonup> val) \<Rightarrow> Clauses \<Rightarrow> bool" where
  "bdd_inv lits coeffs lo hi p n s0 stack ret s \<longleftrightarrow>
     extends s0 s \<and> ext_ok s0 s
     \<and> (\<forall>k\<in>set stack. wf_key n coeffs k \<and> ret k = None)
     \<and> sorted_wrt (\<lambda>a b. fst a < fst b) stack
     \<and> (\<forall>k v. ret k = Some v \<longrightarrow>
           wf_key n coeffs k
           \<and> (\<exists>x. v = Lit x \<and> lit_ok (m s) x \<and> encodes p s0 s x (key_sem lits coeffs lo hi k)))
     \<and> m s + int (card (key_universe n coeffs - dom ret)) < TRUE"

definition bdd_measure :: "nat \<Rightarrow> int list \<Rightarrow> key list \<Rightarrow> (key \<rightharpoonup> val) \<Rightarrow> nat" where
  "bdd_measure n coeffs stack ret =
     card (key_universe n coeffs - dom ret) * (n + 2)
     + (case stack of [] \<Rightarrow> 0 | k # rest \<Rightarrow> nat (fst k + 2))"

section \<open>Properties of the clause stores and of the preprocessing\<close>


lemma ClauseList_ops_grows: "\<exists>ext. clause_list (ClauseList_ops ops s) = clause_list s @ ext"
proof (induction ops arbitrary: s)
  case Nil show ?case by simp
next
  case (Cons x xs)
  obtain ext where e: "clause_list (ClauseList_ops xs (ClauseList_op x s)) = clause_list (ClauseList_op x s) @ ext"
    using Cons.IH by blast
  have "\<exists>e1. clause_list (ClauseList_op x s) = clause_list s @ e1"
    by (cases x) (simp_all add: ClauseList_append_def ClauseList_extend_def)
  with e show ?case by auto
qed

lemma array_extend_grows: "\<exists>ext. snd (array_extend a vs) = a @ ext"
  by (induction a vs rule: array_extend.induct) auto

lemma ClauseArray_append_grows:
  "\<exists>ext. clause_array (snd (ClauseArray_append c s)) = clause_array s @ ext"
proof -
  obtain ext where e: "snd (array_extend (clause_array s) c) = clause_array s @ ext"
    using array_extend_grows by blast
  show ?thesis
    using e by (cases "array_extend (clause_array s) c") (auto simp: ClauseArray_append_def split: option.splits)
qed

lemma ClauseArray_extend_grows:
  "\<exists>ext. clause_array (snd (ClauseArray_extend cs s)) = clause_array s @ ext"
proof (induction cs arbitrary: s)
  case Nil show ?case by simp
next
  case (Cons c cs)
  obtain e1 where e1: "clause_array (snd (ClauseArray_append c s)) = clause_array s @ e1"
    using ClauseArray_append_grows by blast
  show ?case
  proof (cases "ClauseArray_append c s")
    case (Pair r s')
    with e1 have s': "clause_array s' = clause_array s @ e1" by simp
    show ?thesis
    proof (cases r)
      case None
      obtain e2 where "clause_array (snd (ClauseArray_extend cs s')) = clause_array s' @ e2"
        using Cons.IH by blast
      with Pair None s' show ?thesis by simp
    next
      case (Some e)
      with Pair s' show ?thesis by simp
    qed
  qed
qed

lemma ClauseArray_ops_grows: "\<exists>ext. clause_array (ClauseArray_ops ops s) = clause_array s @ ext"
proof (induction ops arbitrary: s)
  case Nil show ?case by simp
next
  case (Cons x xs)
  have "\<exists>e1. clause_array (ClauseArray_op x s) = clause_array s @ e1"
    by (cases x) (simp_all add: ClauseArray_append_grows ClauseArray_extend_grows)
  then obtain e1 where e1: "clause_array (ClauseArray_op x s) = clause_array s @ e1" by blast
  obtain e2 where "clause_array (ClauseArray_ops xs (ClauseArray_op x s)) = clause_array (ClauseArray_op x s) @ e2"
    using Cons.IH by blast
  with e1 show ?case by simp
qed

lemma slice_start_length [simp]: "slice_start (int n) (n + k) = n"
  by (simp add: slice_start_def)

lemma ClauseList_restore_ops:
  "ClauseList_restore_state (ClauseList_save_state s) (ClauseList_ops ops s) = s"
proof -
  obtain ext where e: "clause_list (ClauseList_ops ops s) = clause_list s @ ext"
    using ClauseList_ops_grows by blast
  show ?thesis
    by (simp add: ClauseList_restore_state_def ClauseList_save_state_def e)
qed

text \<open>
  Claim C6. For both stores, whatever the store holds and whatever appends and extends
  follow a \<^verbatim>\<open>save_state\<close>, restoring the saved token makes \<^verbatim>\<open>as_list\<close> yield the
  clauses of the save point; restoring the token of the current state changes nothing.
\<close>

theorem save_restore_stores:
  "ClauseList_as_list (ClauseList_restore_state (ClauseList_save_state s) (ClauseList_ops ops s))
     = ClauseList_as_list s
   \<and> ClauseList_restore_state (ClauseList_save_state s) s = s
   \<and> ClauseArray_as_list (ClauseArray_restore_state (ClauseArray_save_state a) (ClauseArray_ops ops a))
     = ClauseArray_as_list a
   \<and> ClauseArray_restore_state (ClauseArray_save_state a) a = a"
proof -
  obtain ext where e: "clause_list (ClauseList_ops ops s) = clause_list s @ ext"
    using ClauseList_ops_grows by blast
  obtain ext' where e': "clause_array (ClauseArray_ops ops a) = clause_array a @ ext'"
    using ClauseArray_ops_grows by blast
  have 1: "ClauseList_as_list (ClauseList_restore_state (ClauseList_save_state s) (ClauseList_ops ops s))
     = ClauseList_as_list s"
    by (simp add: ClauseList_restore_state_def ClauseList_save_state_def ClauseList_as_list_def e)
  have 2: "ClauseList_restore_state (ClauseList_save_state s) s = s"
    by (simp add: ClauseList_restore_state_def ClauseList_save_state_def slice_start_def)
  have 3: "ClauseArray_as_list (ClauseArray_restore_state (ClauseArray_save_state a) (ClauseArray_ops ops a))
     = ClauseArray_as_list a"
    by (simp add: ClauseArray_restore_state_def ClauseArray_save_state_def ClauseArray_as_list_def e')
  have 4: "ClauseArray_restore_state (ClauseArray_save_state a) a = a"
    by (simp add: ClauseArray_restore_state_def ClauseArray_save_state_def slice_start_def)
  from 1 2 3 4 show ?thesis by blast
qed



lemma TRUE_pos: "0 < TRUE" by (simp add: TRUE_def)
lemma FALSE_neg: "FALSE < 0" by (simp add: FALSE_def TRUE_def)
lemma TRUE_neq_FALSE: "TRUE \<noteq> FALSE" by (simp add: FALSE_def TRUE_def)

lemma lit_true_uminus:
  "l \<noteq> 0 \<Longrightarrow> l \<noteq> TRUE \<Longrightarrow> l \<noteq> FALSE \<Longrightarrow> lit_true M (- l) = (\<not> lit_true M l)"
  using TRUE_pos by (auto simp: lit_true_def FALSE_def)


lemma psum_simps [simp]:
  "psum M [] = 0"
  "psum M ((c, l) # ps) = (if lit_true M l then c else 0) + psum M ps"
  "psum M (ps @ qs) = psum M ps + psum M qs"
  by (simp_all add: psum_def)

lemma wsum_psum: "wsum M lits coeffs = psum M (zip coeffs lits)"
  by (simp add: wsum_def psum_def)


lemma LB_Preprocess_loop_normal:
  "LB_Preprocess_loop ps eq off = (eq', off') \<Longrightarrow> list_all normal_pair eq
   \<Longrightarrow> list_all normal_pair eq'"
proof (induction ps eq off rule: LB_Preprocess_loop.induct)
  case (1 eq off) then show ?case by simp
next
  case (2 coeff lit rest eq off)
  have nf: "lit \<noteq> TRUE \<Longrightarrow> lit \<noteq> FALSE \<Longrightarrow> - lit \<noteq> TRUE \<and> - lit \<noteq> FALSE"
    by (auto simp: FALSE_def)
  from 2 nf show ?case
    by (auto simp: normal_pair_def split: if_splits)
qed

lemma LB_Preprocess_loop_id:
  "list_all normal_pair ps \<Longrightarrow> LB_Preprocess_loop ps eq off = (eq @ ps, off)"
  by (induction ps eq off rule: LB_Preprocess_loop.induct) (auto simp: normal_pair_def)

lemma LB_Preprocess_loop_sum:
  "LB_Preprocess_loop ps eq off = (eq', off') \<Longrightarrow> \<forall>p\<in>set ps. snd p \<noteq> 0
   \<Longrightarrow> psum M eq' + off' = psum M ps + psum M eq + off"
proof (induction ps eq off rule: LB_Preprocess_loop.induct)
  case (1 eq off) then show ?case by simp
next
  case (2 coeff lit rest eq off)
  have t: "lit_true M TRUE" "\<not> lit_true M FALSE"
    using TRUE_neq_FALSE by (simp_all add: lit_true_def)
  from 2 t show ?case
    by (auto simp: lit_true_uminus split: if_splits)
qed

lemma psum_insort: "psum M (insort p ps) = psum M [p] + psum M ps"
  by (induction ps) (auto simp: psum_def split: prod.splits)

lemma psum_sort: "psum M (sort ps) = psum M ps"
proof (induction ps)
  case Nil show ?case by simp
next
  case (Cons p ps)
  have "psum M (sort (p # ps)) = psum M [p] + psum M (sort ps)"
    by (simp add: psum_insort)
  with Cons show ?case by (cases p) simp
qed

lemma sorted_map_fst: "sorted (ps :: (int \<times> int) list) \<Longrightarrow> sorted (map fst ps)"
  by (induction ps) (auto simp: less_eq_prod_def)

lemma zip_map_fst_snd': "zip (map fst ps) (map snd ps) = ps"
  by (induction ps) auto

text \<open>
  Claim C7. The result of \<^verbatim>\<open>LB_Preprocess\<close> has positive coefficients in ascending
  order and no constant literal; preprocessing it again returns the same literals and
  coefficients (with offset 0); and for nonzero literals the weighted sum of the input
  is the offset plus the weighted sum of the output, under every assignment.
\<close>

theorem LB_Preprocess_normal_form:
  assumes "LB_Preprocess lits coeffs = (lits', coeffs', offset)"
  shows "(\<forall>c\<in>set coeffs'. 0 < c) \<and> TRUE \<notin> set lits' \<and> FALSE \<notin> set lits'
     \<and> sorted coeffs' \<and> length lits' = length coeffs'
     \<and> LB_Preprocess lits' coeffs' = (lits', coeffs', 0)
     \<and> (0 \<notin> set lits \<longrightarrow> (\<forall>M. wsum M lits coeffs = offset + wsum M lits' coeffs'))"
proof -
  obtain eq where loop: "LB_Preprocess_loop (zip coeffs lits) [] 0 = (eq, offset)"
    and l': "lits' = map snd (sort eq)" and c': "coeffs' = map fst (sort eq)"
    using assms by (auto simp: LB_Preprocess_def split: prod.splits)
  have "list_all normal_pair eq"
    using LB_Preprocess_loop_normal [OF loop] by simp
  then have n: "list_all normal_pair (sort eq)"
    by (simp add: list_all_iff)
  have 1: "\<forall>c\<in>set coeffs'. 0 < c"
    using n by (auto simp: c' list_all_iff normal_pair_def)
  have 2: "TRUE \<notin> set lits'" "FALSE \<notin> set lits'"
    using n by (auto simp: l' list_all_iff normal_pair_def)
  have 3: "sorted coeffs'"
    by (simp add: c' sorted_map_fst)
  have 4: "length lits' = length coeffs'"
    by (simp add: c' l')
  have 5: "LB_Preprocess lits' coeffs' = (lits', coeffs', 0)"
    using LB_Preprocess_loop_id [OF n, of "[]" 0]
    by (simp add: LB_Preprocess_def c' l' zip_map_fst_snd' sorted_sort_id)
  have 6: "wsum M lits coeffs = offset + wsum M lits' coeffs'" if z: "0 \<notin> set lits" for M
  proof -
    have "\<forall>p\<in>set (zip coeffs lits). snd p \<noteq> 0"
      using z by (auto dest: set_zip_rightD)
    from LB_Preprocess_loop_sum [OF loop this, of M]
    show ?thesis
      by (simp add: wsum_psum c' l' zip_map_fst_snd' psum_sort)
  qed
  from 1 2 3 4 5 6 show ?thesis by blast
qed

theorem LB_Preprocess_normal_form_witness:
  "LB_Preprocess [TRUE, 2, FALSE, 3, 1] [4, - 3, 7, 0, 2] = ([1, - 2], [2, 3], 1)
   \<and> LB_Preprocess [1, - 2] [2, 3] = ([1, - 2], [2, 3], 0)
   \<and> (\<forall>M. wsum M [TRUE, 2, FALSE, 3, 1] [4, - 3, 7, 0, 2] = 1 + wsum M [1, - 2] [2, 3])"
proof -
  have e: "LB_Preprocess [TRUE, 2, FALSE, 3, 1] [4, - 3, 7, 0, 2] = ([1, - 2], [2, 3], 1)"
    by (simp add: LB_Preprocess_def TRUE_def FALSE_def less_eq_prod_def)
  have z: "0 \<notin> set [TRUE, 2, FALSE, 3, 1]"
    by (simp add: TRUE_def FALSE_def)
  from LB_Preprocess_normal_form [OF e] z e show ?thesis by blast
qed



lemma driver_op_grows:
  "\<exists>ext. as_list (run_driver_op x s) = as_list s @ ext \<and> m s \<le> m (run_driver_op x s)"
  by (cases x; cases "\<exists>p n. x = Assign (Deferred p n)")
     (auto simp: as_list_def ClauseList_as_list_def new_var_def add_clause_def add_clauses_def
        assign_def ClauseList_append_def ClauseList_extend_def split: val.splits)

lemma driver_ops_grows:
  "\<exists>ext. as_list (driver_ops ops s) = as_list s @ ext \<and> m s \<le> m (driver_ops ops s)"
proof (induction ops arbitrary: s)
  case Nil show ?case by simp
next
  case (Cons x xs)
  obtain e1 where e1: "as_list (run_driver_op x s) = as_list s @ e1" "m s \<le> m (run_driver_op x s)"
    using driver_op_grows by blast
  obtain e2 where "as_list (driver_ops xs (run_driver_op x s)) = as_list (run_driver_op x s) @ e2"
    "m (run_driver_op x s) \<le> m (driver_ops xs (run_driver_op x s))"
    using Cons.IH by blast
  with e1 show ?case by auto
qed

text \<open>
  Claim C9. \<^verbatim>\<open>restore_state\<close> leaves \<^verbatim>\<open>m\<close> as it is: after any calls of
  \<^verbatim>\<open>new_var\<close>, \<^verbatim>\<open>add_clause\<close>, \<^verbatim>\<open>add_clauses\<close> and \<^verbatim>\<open>assign\<close> that follow a
  \<^verbatim>\<open>save_state\<close>, restoring brings back the clauses of the save point and keeps the
  counter, which never went down.
\<close>

theorem restore_state_keeps_m:
  "m (restore_state token s) = m s
   \<and> as_list (restore_state (save_state s) (driver_ops ops s)) = as_list s
   \<and> m (restore_state (save_state s) (driver_ops ops s)) = m (driver_ops ops s)
   \<and> m s \<le> m (driver_ops ops s)
   \<and> m (snd (new_var s)) = m s + 1"
proof -
  obtain ext where e: "as_list (driver_ops ops s) = as_list s @ ext" "m s \<le> m (driver_ops ops s)"
    using driver_ops_grows by blast
  have 1: "m (restore_state token s) = m s" for token s
    by (simp add: restore_state_def)
  have 2: "as_list (restore_state (save_state s) (driver_ops ops s)) = as_list s"
    using e(1) by (simp add: restore_state_def save_state_def as_list_def ClauseList_as_list_def
        ClauseList_restore_state_def ClauseList_save_state_def)
  have 3: "m (snd (new_var s)) = m s + 1"
    by (simp add: new_var_def)
  from 1 2 3 e(2) show ?thesis by blast
qed

text \<open>
  Claim C8. \<^verbatim>\<open>And\<close> and \<^verbatim>\<open>Or\<close> on a constant or aliased argument return the
  documented literal and leave the driver as it was, for every polarity and either
  value of \<^verbatim>\<open>add_new_clauses\<close>. A literal is a nonzero integer.
\<close>

theorem short_circuit_And_Or:
  "And TRUE x polarity add_new s = (Lit x, s)
   \<and> And FALSE x polarity add_new s = (Lit FALSE, s)
   \<and> And x x polarity add_new s = (Lit x, s)
   \<and> (x \<noteq> 0 \<longrightarrow> And x (- x) polarity add_new s = (Lit FALSE, s))
   \<and> Or FALSE x polarity add_new s = (Lit x, s)
   \<and> Or TRUE x polarity add_new s = (Lit TRUE, s)
   \<and> Or x x polarity add_new s = (Lit x, s)
   \<and> (x \<noteq> 0 \<longrightarrow> Or x (- x) polarity add_new s = (Lit TRUE, s))"
  using TRUE_pos by (auto simp: And_def Or_def FALSE_def)

theorem short_circuit_And_Or_witness:
  "And 3 (- 3) None True (Clauses_init 4) = (Lit FALSE, Clauses_init 4)
   \<and> Or 3 (- 3) None True (Clauses_init 4) = (Lit TRUE, Clauses_init 4)"
  using short_circuit_And_Or [of 3 None True "Clauses_init 4"] by simp


section \<open>Combinators only append clauses\<close>


lemma extends_refl [simp]: "extends s s"
  by (simp add: extends_def)

lemma extends_trans: "extends s s1 \<Longrightarrow> extends s1 s2 \<Longrightarrow> extends s s2"
  by (auto simp: extends_def)

lemma extends_new_var: "new_var s = (x, s1) \<Longrightarrow> extends s s1"
  by (auto simp: new_var_def extends_def as_list_def)

lemma extends_add_clauses [simp]: "extends s (add_clauses cs s)"
  by (simp add: extends_def add_clauses_def as_list_def ClauseList_as_list_def ClauseList_extend_def)

lemma extends_add_clauses': "extends s s1 \<Longrightarrow> extends s (add_clauses cs s1)"
  using extends_trans extends_add_clauses by blast

lemma extends_add_clause [simp]: "extends s (add_clause c s)"
  by (simp add: extends_def add_clause_def as_list_def ClauseList_as_list_def ClauseList_append_def)

lemma extends_assign: "assign v s = (x, s') \<Longrightarrow> extends s s'"
  by (cases v) (auto simp: assign_def new_var_def extends_def add_clauses_def as_list_def
      ClauseList_as_list_def ClauseList_extend_def)

lemma extends_fresh:
  "extends s (add_clauses cs2 (add_clauses cs1 (s\<lparr>m := m s + 1\<rparr>)))"
  "extends s (add_clauses cs1 (s\<lparr>m := m s + 1\<rparr>))"
  "extends s (s\<lparr>m := m s + 1\<rparr>)"
  by (simp_all add: extends_def add_clauses_def as_list_def ClauseList_as_list_def ClauseList_extend_def)

lemma extends_And: "And f g p a s = (v, s') \<Longrightarrow> extends s s'"
  by (auto simp: And_def new_var_def Let_def extends_fresh split: if_splits prod.splits)

lemma extends_Or: "Or f g p a s = (v, s') \<Longrightarrow> extends s s'"
  by (auto simp: Or_def new_var_def Let_def extends_fresh split: if_splits prod.splits)

lemma extends_Xor: "Xor f g p a s = (v, s') \<Longrightarrow> extends s s'"
  by (auto simp: Xor_def new_var_def Let_def extends_fresh split: if_splits prod.splits)

lemma extends_ITE: "ITE c t f p a s = (v, s') \<Longrightarrow> extends s s'"
  unfolding ITE_def
  by (auto simp: new_var_def Let_def extends_fresh split: if_splits prod.splits
      dest: extends_And extends_Or extends_Xor)

lemma extends_All_loop:
  "All_loop gen iter vals s = (r, s') \<Longrightarrow> (\<And>a s1 v s2. gen a s1 = (v, s2) \<Longrightarrow> extends s1 s2)
   \<Longrightarrow> extends s s'"
proof (induction gen iter vals s rule: All_loop.induct)
  case (1 gen vals s) then show ?case by simp
next
  case (2 gen a rest vals s)
  obtain v s1 where g: "gen a s = (v, s1)" by (cases "gen a s")
  have e1: "extends s s1" using 2(4) g by blast
  show ?case
  proof (cases "v = TRUE")
    case True
    with 2 g have "extends s1 s'" by simp
    with e1 show ?thesis by (rule extends_trans)
  next
    case False
    show ?thesis
    proof (cases "v = FALSE \<or> - v \<in> set vals")
      case True
      with False 2(3) g have "s' = s1" by simp
      with e1 show ?thesis by simp
    next
      case F2: False
      with False 2 g have "extends s1 s'" by simp
      with e1 show ?thesis by (rule extends_trans)
    qed
  qed
qed

lemma extends_All_gen:
  "All_gen gen iter p s = (v, s') \<Longrightarrow> (\<And>a s1 v s2. gen a s1 = (v, s2) \<Longrightarrow> extends s1 s2)
   \<Longrightarrow> extends s s'"
  by (auto simp: All_gen_def split: prod.splits option.splits dest: extends_All_loop)

lemma extends_All: "All iter p s = (v, s') \<Longrightarrow> extends s s'"
  unfolding All_def by (erule extends_All_gen) simp

lemma extends_Combine: "Combine args p s = (v, s') \<Longrightarrow> extends s s'"
  by (auto simp: Combine_def Let_def split: if_splits dest: extends_All_gen extends_assign)

lemma extends_AtMostOne_NSQ: "AtMostOne_NSQ vals p s = (v, s') \<Longrightarrow> extends s s'"
  by (auto simp: AtMostOne_NSQ_def Let_def dest: extends_Combine)

lemma extends_ExactlyOne_NSQ: "ExactlyOne_NSQ vals p s = (v, s') \<Longrightarrow> extends s s'"
  by (auto simp: ExactlyOne_NSQ_def Let_def split: prod.splits
      dest: extends_Combine extends_AtMostOne_NSQ intro: extends_trans)

lemma BDD_loop_Nil: "BDD_loop lits coeffs lo hi p [] ret s = Some (Inr (ret, s))"
  by (subst BDD_loop.simps) simp

lemma BDD_loop_Cons:
  "BDD_loop lits coeffs lo hi p (k # rest) ret s =
     (case BDD_body lits coeffs lo hi p k ret s of
        Pop v s' \<Rightarrow> BDD_loop lits coeffs lo hi p rest (ret(k \<mapsto> v)) s'
      | Push k' \<Rightarrow> BDD_loop lits coeffs lo hi p (k' # k # rest) ret s
      | Raise e \<Rightarrow> Some (Inl e))"
  by (subst BDD_loop.simps) simp

lemma extends_BDD_body:
  "BDD_body lits coeffs lo hi p k ret s = Pop v s' \<Longrightarrow> extends s s'"
  by (auto simp: BDD_body_def Let_def split: prod.splits option.splits val.splits if_splits
      dest: extends_ITE)


lemma extends_BDD_loop_aux:
  assumes "BDD_loop lits coeffs lo hi p stack ret s = Some y"
  shows "\<forall>ret' s'. y = Inr (ret', s') \<longrightarrow> extends s s'"
proof (rule BDD_loop.raw_induct
    [where P = "\<lambda>lits coeffs lo hi p stack ret s y. \<forall>ret' s'. y = Inr (ret', s') \<longrightarrow> extends s s'",
      OF _ assms], goal_cases)
  case (1 f lits coeffs lo hi p stack ret s y)
  show ?case
  proof (cases stack)
    case Nil
    with 1(2) show ?thesis by auto
  next
    case (Cons k rest)
    show ?thesis
    proof (cases "BDD_body lits coeffs lo hi p k ret s")
      case (Pop v s1)
      then have e: "extends s s1" by (rule extends_BDD_body)
      from Pop 1(2) Cons have "f lits coeffs lo hi p rest (ret(k \<mapsto> v)) s1 = Some y"
        by simp
      from 1(1) [OF this] e show ?thesis by (blast intro: extends_trans)
    next
      case (Push k')
      from Push 1(2) Cons have "f lits coeffs lo hi p (k' # stack) ret s = Some y"
        by simp
      from 1(1) [OF this] show ?thesis .
    next
      case (Raise e)
      from Raise 1(2) Cons have "y = Inl e"
        by simp
      then show ?thesis by simp
    qed
  qed
qed

lemma extends_BDD_loop:
  "BDD_loop lits coeffs lo hi p stack ret s = Some (Inr (ret', s')) \<Longrightarrow> extends s s'"
  using extends_BDD_loop_aux by blast

lemma extends_BDD: "BDD lits coeffs nterms lo hi p s = Some (Inr (v, s')) \<Longrightarrow> extends s s'"
  by (auto simp: BDD_def Let_def split: option.splits sum.splits dest: extends_BDD_loop)

lemma extends_LinearBound:
  assumes "LinearBound lits coeffs lo hi pre p s = Some (Inr (v, s'))"
  shows "extends s s'"
  using assms unfolding LinearBound_def Let_def
  by (auto split: prod.splits if_splits option.splits sum.splits
      dest!: extends_BDD extends_All extends_Combine intro: extends_trans)

lemma extends_call: "call c p s = Some (Inr (v, s')) \<Longrightarrow> extends s s'"
  by (cases c)
     (auto simp: AtMostOne_BDD_def ExactlyOne_BDD_def
       dest: extends_And extends_Or extends_Xor extends_ITE extends_All extends_Combine
         extends_AtMostOne_NSQ extends_ExactlyOne_NSQ extends_LinearBound)


lemma restore_extends:
  "extends s s' \<Longrightarrow> restore_state (save_state s) s' = s'\<lparr>sat_solver := sat_solver s\<rparr>"
  by (auto simp: extends_def restore_state_def save_state_def as_list_def ClauseList_as_list_def
      ClauseList_restore_state_def ClauseList_save_state_def)

text \<open>
  Claim C10. When the combinator called by \<^verbatim>\<open>Eval\<close> (so by \<^verbatim>\<open>Require\<close> or
  \<^verbatim>\<open>Prevent\<close>) returns \<^verbatim>\<open>TRUE\<close> or \<^verbatim>\<open>FALSE\<close>, \<^verbatim>\<open>Eval\<close> returns with the clause
  store of before the call: what the combinator appended is rolled back. The backend is
  not called; the counter keeps the value the combinator left, and \<^verbatim>\<open>unsat\<close> is set
  when the constant contradicts the polarity.
\<close>

theorem Eval_constant_rolls_back:
  assumes "call func (Some polarity) s = Some (Inr (Lit v, s1))" and "v = TRUE \<or> v = FALSE"
  shows "\<exists>s'. Eval func polarity s = Some (Inr s') \<and> as_list s' = as_list s
     \<and> sat_solver s' = sat_solver s \<and> backend_calls s' = backend_calls s
     \<and> m s' = m s1 \<and> m s \<le> m s'
     \<and> unsat s' = (unsat s \<or> (v = TRUE) \<noteq> polarity)
     \<and> Require func s = Eval func True s \<and> Prevent func s = Eval func False s"
proof -
  have e: "extends s s1" using assms(1) by (rule extends_call)
  have "Eval func polarity s = Some (Inr ((restore_state (save_state s) s1)
          \<lparr>unsat := unsat s1 \<or> ((v = TRUE) \<noteq> polarity)\<rparr>))"
    using assms by (auto simp: Eval_def)
  with e show ?thesis
    by (auto simp: restore_extends as_list_def extends_def Require_def Prevent_def)
qed


theorem Eval_constant_rolls_back_witness:
  "call (Comb_Combine [Deferred [[1], [2]] [], Lit 3, Lit (- 3)]) (Some True) (Clauses_init 3)
     = Some (Inr (Lit FALSE,
         \<lparr>unsat = False, m = 4, sat_solver = \<lparr>clause_list = [[- 4, 1], [- 4, 2]]\<rparr>,
            backend_calls = 0\<rparr>))
   \<and> (\<exists>s'. Eval (Comb_Combine [Deferred [[1], [2]] [], Lit 3, Lit (- 3)]) True (Clauses_init 3)
          = Some (Inr s')
        \<and> as_list s' = as_list (Clauses_init 3) \<and> m s' = 4 \<and> unsat s')"
proof -
  have c: "call (Comb_Combine [Deferred [[1], [2]] [], Lit 3, Lit (- 3)]) (Some True) (Clauses_init 3)
     = Some (Inr (Lit FALSE,
         \<lparr>unsat = False, m = 4, sat_solver = \<lparr>clause_list = [[- 4, 1], [- 4, 2]]\<rparr>,
            backend_calls = 0\<rparr>))"
    by code_simp
  have "FALSE = TRUE \<or> FALSE = FALSE" by simp
  from Eval_constant_rolls_back [OF c] c show ?thesis
    by (auto simp: FALSE_def TRUE_def)
qed


section \<open>The unsat flag and the frame of \<^verbatim>\<open>sat\<close>\<close>


lemma run_driver_op_unsat:
  "unsat (run_driver_op x s) = unsat s \<and> backend_calls (run_driver_op x s) = backend_calls s"
  by (cases x; cases "\<exists>p n. x = Assign (Deferred p n)")
     (auto simp: new_var_def add_clause_def add_clauses_def assign_def split: val.splits)

lemma Eval_keeps_unsat:
  assumes "Eval func polarity s = Some (Inr s2)"
  shows "(unsat s \<longrightarrow> unsat s2) \<and> backend_calls s2 = backend_calls s"
proof -
  from assms obtain v s1 where c: "call func (Some polarity) s = Some (Inr (v, s1))"
    by (auto simp: Eval_def split: option.splits sum.splits)
  then have "extends s s1" by (rule extends_call)
  then have "unsat s1 = unsat s" "backend_calls s1 = backend_calls s"
    by (simp_all add: extends_def)
  with assms c show ?thesis
    by (auto simp: Eval_def add_clauses_def add_clause_def restore_state_def
        split: val.splits if_splits)
qed

lemma run_client_unsat:
  "unsat s \<Longrightarrow> (\<forall>r\<in>set (fst (run_client run ops s)). r = None)
     \<and> unsat (snd (run_client run ops s))
     \<and> backend_calls (snd (run_client run ops s)) = backend_calls s"
proof (induction run ops s rule: run_client.induct)
  case (1 run s)
  then show ?case by simp
next
  case (2 run additional includeIf limit ops s)
  have "sat run additional includeIf limit s = (None, s)"
    using 2(2) by (simp add: sat_def)
  with 2 show ?case by (auto split: prod.splits)
next
  case (3 run x ops s)
  with run_driver_op_unsat [of x s] show ?case by simp
next
  case (4 run func polarity ops s)
  show ?case
  proof (cases "Eval func polarity s")
    case None
    with 4(2) show ?thesis by simp
  next
    case (Some r)
    show ?thesis
    proof (cases r)
      case (Inl e)
      with Some 4(2) show ?thesis by simp
    next
      case (Inr s')
      with Some Eval_keeps_unsat [of func polarity s s'] 4(2)
      have "unsat s'" "backend_calls s' = backend_calls s" by simp_all
      with 4(1) [OF Some Inr] Some Inr show ?thesis by simp
    qed
  qed
qed

text \<open>
  Claim C2. \<^verbatim>\<open>Require\<close> of a combinator that returns \<^verbatim>\<open>FALSE\<close> and \<^verbatim>\<open>Prevent\<close> of
  one that returns \<^verbatim>\<open>TRUE\<close> set \<^verbatim>\<open>unsat\<close>. With \<^verbatim>\<open>unsat\<close> set, \<^verbatim>\<open>sat\<close> returns
  \<^verbatim>\<open>None\<close> and leaves the driver as it is, so the backend is not called; and in any
  sequence of calls of \<^verbatim>\<open>sat\<close>, \<^verbatim>\<open>new_var\<close>, \<^verbatim>\<open>add_clause\<close>, \<^verbatim>\<open>add_clauses\<close>,
  \<^verbatim>\<open>assign\<close>, \<^verbatim>\<open>Require\<close> and \<^verbatim>\<open>Prevent\<close> that follows, every \<^verbatim>\<open>sat\<close> returns
  \<^verbatim>\<open>None\<close>, the flag stays set and the backend is never called.
\<close>

theorem unsat_sticky:
  "(call func (Some True) s0 = Some (Inr (Lit FALSE, s1))
      \<longrightarrow> (\<exists>s'. Require func s0 = Some (Inr s') \<and> unsat s'))
   \<and> (call func (Some False) s0 = Some (Inr (Lit TRUE, s1))
      \<longrightarrow> (\<exists>s'. Prevent func s0 = Some (Inr s') \<and> unsat s'))
   \<and> (unsat s
      \<longrightarrow> sat run additional includeIf limit s = (None, s)
        \<and> (\<forall>r\<in>set (fst (run_client run ops s)). r = None)
        \<and> unsat (snd (run_client run ops s))
        \<and> backend_calls (snd (run_client run ops s)) = backend_calls s)"
proof -
  have 1: "call func (Some True) s0 = Some (Inr (Lit FALSE, s1))
        \<longrightarrow> (\<exists>s'. Require func s0 = Some (Inr s') \<and> unsat s')"
    by (auto simp: Require_def Eval_def FALSE_def TRUE_def)
  have 2: "call func (Some False) s0 = Some (Inr (Lit TRUE, s1))
        \<longrightarrow> (\<exists>s'. Prevent func s0 = Some (Inr s') \<and> unsat s')"
    by (auto simp: Prevent_def Eval_def FALSE_def TRUE_def)
  have 3: "unsat s \<longrightarrow> sat run additional includeIf limit s = (None, s)"
    by (simp add: sat_def)
  from 1 2 3 run_client_unsat [of s run ops] show ?thesis by blast
qed

theorem unsat_sticky_witness:
  "(\<exists>s'. Require (Comb_Any []) (Clauses_init 3) = Some (Inr s') \<and> unsat s')
   \<and> sat enum_backend (Some [[1]]) True 0 ((Clauses_init 3)\<lparr>unsat := True\<rparr>)
       = (None, (Clauses_init 3)\<lparr>unsat := True\<rparr>)
   \<and> unsat (snd (run_client enum_backend
        [Call_sat None False 0, Call_driver (Add_clause [1]), Call_sat (Some [[2]]) True 0]
        ((Clauses_init 3)\<lparr>unsat := True\<rparr>)))
   \<and> backend_calls (snd (run_client enum_backend
        [Call_sat None False 0, Call_driver (Add_clause [1]), Call_sat (Some [[2]]) True 0]
        ((Clauses_init 3)\<lparr>unsat := True\<rparr>)))
       = backend_calls ((Clauses_init 3)\<lparr>unsat := True\<rparr>)"
proof -
  have c: "call (Comb_Any []) (Some True) (Clauses_init 3) = Some (Inr (Lit FALSE, Clauses_init 3))"
    by (simp add: Any_def)
  have u: "unsat ((Clauses_init 3)\<lparr>unsat := True\<rparr>)" by simp
  from unsat_sticky [of "Comb_Any []" "Clauses_init 3" "Clauses_init 3"
      "(Clauses_init 3)\<lparr>unsat := True\<rparr>" enum_backend "Some [[1]]" True 0
      "[Call_sat None False 0, Call_driver (Add_clause [1]), Call_sat (Some [[2]]) True 0]"]
    c u
  show ?thesis by blast
qed

text \<open>
  Claim C3. For a non-empty list of additional clauses, \<^verbatim>\<open>sat\<close> leaves the clause
  store as it was when no solution is returned or \<^verbatim>\<open>includeIf\<close> is false; the store
  differs only by the preprocessed additional clauses at its end, and only when a
  solution was found and \<^verbatim>\<open>includeIf\<close> is true.
\<close>

theorem sat_frame:
  assumes "additional \<noteq> []"
    and "sat run (Some additional) includeIf limit s = (solution, s')"
  shows "(solution = None \<or> \<not> includeIf \<longrightarrow> as_list s' = as_list s)
     \<and> (as_list s' = as_list s
         \<or> (as_list s' = as_list s @ preproc additional \<and> solution \<noteq> None \<and> includeIf))
     \<and> (\<not> unsat s \<and> m s \<noteq> 0 \<and> solution \<noteq> None \<and> includeIf
          \<longrightarrow> as_list s' = as_list s @ preproc additional)
     \<and> unsat s' = unsat s \<and> m s' = m s"
proof -
  have r: "as_list (restore_state (save_state s) (add_clauses cs s\<lparr>backend_calls := n\<rparr>)) = as_list s"
    for cs n
    by (simp add: restore_state_def save_state_def add_clauses_def as_list_def
        ClauseList_as_list_def ClauseList_restore_state_def ClauseList_save_state_def
        ClauseList_extend_def)
  have a: "as_list (add_clauses cs s\<lparr>backend_calls := n\<rparr>) = as_list s @ cs" for cs n
    by (simp add: add_clauses_def as_list_def ClauseList_as_list_def ClauseList_extend_def)
  have f: "unsat (restore_state k t) = unsat t" "m (restore_state k t) = m t"
    "unsat (add_clauses cs t) = unsat t" "m (add_clauses cs t) = m t" for k t cs
    by (simp_all add: restore_state_def add_clauses_def)
  show ?thesis
    using assms
    by (auto simp: sat_def run_sat_def Let_def r a f split: if_splits)
       (simp_all add: as_list_def)
qed

theorem sat_frame_witness:
  "sat enum_backend (Some [[- 1, FALSE], [2, TRUE]]) True 0 (add_clause [1, 2] (Clauses_init 2))
     = (Some [- 1, 2],
        \<lparr>unsat = False, m = 2, sat_solver = \<lparr>clause_list = [[1, 2], [- 1]]\<rparr>, backend_calls = 1\<rparr>)
   \<and> as_list \<lparr>unsat = False, m = 2, sat_solver = \<lparr>clause_list = [[1, 2], [- 1]]\<rparr>,
        backend_calls = 1\<rparr>
     = as_list (add_clause [1, 2] (Clauses_init 2)) @ preproc [[- 1, FALSE], [2, TRUE]]"
proof -
  have e: "sat enum_backend (Some [[- 1, FALSE], [2, TRUE]]) True 0 (add_clause [1, 2] (Clauses_init 2))
     = (Some [- 1, 2],
        \<lparr>unsat = False, m = 2, sat_solver = \<lparr>clause_list = [[1, 2], [- 1]]\<rparr>, backend_calls = 1\<rparr>)"
    by code_simp
  have n: "[[- 1, FALSE], [2, TRUE]] \<noteq> []" by simp
  have p: "\<not> unsat (add_clause [1, 2] (Clauses_init 2)) \<and> m (add_clause [1, 2] (Clauses_init 2)) \<noteq> 0"
    by (simp add: add_clause_def Clauses_init_def)
  from sat_frame [OF n e] e p show ?thesis by simp
qed


section \<open>The reference backend keeps the contract; scenario S5\<close>


lemma upto_snoc: "i \<le> j + 1 \<Longrightarrow> [i .. j + 1] = [i .. j] @ [j + 1]"
  by (simp add: upto_rec2)

lemma map_abs_snoc:
  "map abs sol = xs @ [y] \<longleftrightarrow> (\<exists>a l. sol = a @ [l] \<and> map abs a = xs \<and> \<bar>l\<bar> = (y::int))"
  by (cases sol rule: rev_cases) auto

lemma set_assignments: "set (assignments k) = {sol. map abs sol = [1 .. int k]}"
proof (induction k)
  case 0
  show ?case by auto
next
  case (Suc k)
  have u: "[1 .. int (Suc k)] = [1 .. int k] @ [int k + 1]"
    using upto_snoc [of 1 "int k"] by (simp add: add.commute)
  have l: "(l = - int (Suc k) \<or> l = int (Suc k)) \<longleftrightarrow> \<bar>l\<bar> = int k + 1" for l
    by arith
  have "set (assignments (Suc k))
      = {a @ [l] | a l. a \<in> set (assignments k) \<and> (l = - int (Suc k) \<or> l = int (Suc k))}"
    by auto
  also have "\<dots> = {a @ [l] | a l. map abs a = [1 .. int k] \<and> \<bar>l\<bar> = int k + 1}"
    unfolding Suc.IH l by simp
  also have "\<dots> = {sol. map abs sol = [1 .. int (Suc k)]}"
    unfolding u map_abs_snoc by auto
  finally show ?case .
qed

lemma upto_nat: "[1 .. n] = [1 .. int (nat n)]"
  by (cases "0 \<le> n") simp_all

lemma enum_backend_ok: "backend_ok enum_backend"
proof -
  have s: "is_solution cs n sol" if "enum_backend cs n limit = Some sol" for cs n limit sol
  proof -
    from that have "sol \<in> set (assignments (nat n))" "satisfies sol cs"
      by (auto simp: enum_backend_def find_Some_iff)
    then show ?thesis
      using upto_nat [of n] by (simp add: set_assignments is_solution_def is_assignment_def)
  qed
  have c: "enum_backend cs n 0 \<noteq> None" if "is_solution cs n sol" for cs n sol
  proof -
    from that have "sol \<in> set (assignments (nat n))" "satisfies sol cs"
      using upto_nat [of n] by (simp_all add: set_assignments is_solution_def is_assignment_def)
    then show ?thesis
      by (auto simp: enum_backend_def find_None_iff)
  qed
  from s c show ?thesis unfolding backend_ok_def by blast
qed

lemma upto_1_4: "[1 .. 4] = [1, 2, 3, (4::int)]"
  by code_simp

lemma only_model:
  assumes "backend_ok run"
  shows "run [[- 1], [- 2], [- 3], [- 4]] 4 0 = Some [- 1, - 2, - 3, - 4]"
proof -
  have "is_solution [[- 1], [- 2], [- 3], [- 4]] 4 [- 1, - 2, - 3, - 4]"
    by (simp add: is_solution_def is_assignment_def satisfies_def upto_1_4)
  with assms obtain sol where r: "run [[- 1], [- 2], [- 3], [- 4]] 4 0 = Some sol"
    unfolding backend_ok_def by blast
  with assms have "is_solution [[- 1], [- 2], [- 3], [- 4]] 4 sol"
    unfolding backend_ok_def by blast
  then have a: "map abs sol = [1, 2, 3, 4]" and m: "- 1 \<in> set sol" "- 2 \<in> set sol"
    "- 3 \<in> set sol" "- 4 \<in> set sol"
    by (simp_all add: is_solution_def is_assignment_def satisfies_def upto_1_4)
  from a obtain a1 a2 a3 a4 where sol: "sol = [a1, a2, a3, a4]"
    and ab: "\<bar>a1\<bar> = 1" "\<bar>a2\<bar> = 2" "\<bar>a3\<bar> = 3" "\<bar>a4\<bar> = 4"
    by (auto simp: map_eq_Cons_conv)
  have "a1 = - 1" using m(1) ab unfolding sol by auto
  moreover have "a2 = - 2" using m(2) ab unfolding sol by auto
  moreover have "a3 = - 3" using m(3) ab unfolding sol by auto
  moreover have "a4 = - 4" using m(4) ab unfolding sol by auto
  ultimately have "sol = [- 1, - 2, - 3, - 4]"
    by (simp add: sol)
  with r show ?thesis by simp
qed

text \<open>
  Claim C4, as the code behaves. With four variables, an empty clause store and any
  backend that keeps its contract, \<^verbatim>\<open>minimize(lits=[1,2,3,4], coeffs=[1,1,5,5],
  bestsol=[1,2,3,4])\<close> runs the peak stage, whose first probe (\<open>mid = 0\<close>) prevents all
  four literals and succeeds: the peak objective is 0, the loop over the stages is left
  before the sum stage, and the result is the all-false solution with \<open>bestval = 0\<close>.
\<close>

theorem minimize_unconstrained:
  assumes "backend_ok run"
  shows "minimize run [1, 2, 3, 4] [1, 1, 5, 5] (Some [1, 2, 3, 4]) False (Clauses_init 4)
     = Some (Inr ((Some [- 1, - 2, - 3, - 4], 0),
         \<lparr>unsat = False, m = 4, sat_solver = \<lparr>clause_list = [[- 1], [- 2], [- 3], [- 4]]\<rparr>,
            backend_calls = 1\<rparr>))
   \<and> (\<exists>st. stage run False True [1, 2, 3, 4] [1, 1, 5, 5] 0 (Some 0) [1, 2, 3, 4] (Clauses_init 4)
           = Some (Inr st)
         \<and> b_bestval st = 0 \<and> b_bestsol st = [- 1, - 2, - 3, - 4])"
proof -
  note r = only_model [OF assms]
  have pre: "LB_Preprocess [1, 2, 3, 4] [1, 1, 5, 5] = ([1, 2, 3, 4], [1, 1, 5, 5], 0)"
    by code_simp
  have any: "Any [1, 2, 3, 4] (Some False) = Deferred [] [[- 1], [- 2], [- 3], [- 4]]"
    by code_simp
  have step: "bisect_step run True [1, 2, 3, 4] [1, 1, 5, 5]
       (objective_dict [1, 2, 3, 4] [1, 1, 5, 5]) 4 0
       \<lparr>b_lo = 0, b_hi = 5, b_try0 = Some 0, b_bestsol = [1, 2, 3, 4], b_bestval = 5,
          b_driver = Clauses_init 4\<rparr>
     = Some (Inr (Break
        \<lparr>b_lo = 0, b_hi = 0, b_try0 = Some 0, b_bestsol = [- 1, - 2, - 3, - 4], b_bestval = 0,
          b_driver = \<lparr>unsat = False, m = 4,
             sat_solver = \<lparr>clause_list = [[- 1], [- 2], [- 3], [- 4]]\<rparr>, backend_calls = 1\<rparr>\<rparr>))"
    by (simp add: bisect_step_def Prevent_def Eval_def any Clauses_init_def ClauseList_init_def
        save_state_def ClauseList_save_state_def add_clauses_def ClauseList_extend_def
        sat_def run_sat_def as_list_def ClauseList_as_list_def r objval_def peak_val_def
        py_max_def objective_dict_def dict_get_def)
  have st: "stage run False True [1, 2, 3, 4] [1, 1, 5, 5] 0 (Some 0) [1, 2, 3, 4] (Clauses_init 4)
     = Some (Inr \<lparr>b_lo = 0, b_hi = 0, b_try0 = Some 0, b_bestsol = [- 1, - 2, - 3, - 4],
          b_bestval = 0,
          b_driver = \<lparr>unsat = False, m = 4,
             sat_solver = \<lparr>clause_list = [[- 1], [- 2], [- 3], [- 4]]\<rparr>, backend_calls = 1\<rparr>\<rparr>)"
    unfolding stage_def stage_init_def
    apply (simp add: objval_def peak_val_def py_max_def dict_get_def)
    apply (simp add: objective_dict_def)
    apply (subst bisect.simps)
    using step apply (simp add: objective_dict_def Clauses_init_def save_state_def
        ClauseList_save_state_def ClauseList_init_def)
    done
  have "minimize run [1, 2, 3, 4] [1, 1, 5, 5] (Some [1, 2, 3, 4]) False (Clauses_init 4)
     = Some (Inr ((Some [- 1, - 2, - 3, - 4], 0),
         \<lparr>unsat = False, m = 4, sat_solver = \<lparr>clause_list = [[- 1], [- 2], [- 3], [- 4]]\<rparr>,
            backend_calls = 1\<rparr>))"
    unfolding minimize_def
    by (simp add: pre py_max_def st) (simp add: Clauses_init_def)
  with st show ?thesis by simp
qed

theorem minimize_unconstrained_witness:
  "backend_ok enum_backend
   \<and> minimize enum_backend [1, 2, 3, 4] [1, 1, 5, 5] (Some [1, 2, 3, 4]) False (Clauses_init 4)
     = Some (Inr ((Some [- 1, - 2, - 3, - 4], 0),
         \<lparr>unsat = False, m = 4, sat_solver = \<lparr>clause_list = [[- 1], [- 2], [- 3], [- 4]]\<rparr>,
            backend_calls = 1\<rparr>))"
  using minimize_unconstrained [OF enum_backend_ok] enum_backend_ok by blast

text \<open>
  Claim C4 as stated (peak objective 1, \<open>bestval = 2\<close>) fails: on the reference
  backend the run returns \<open>bestval = 0\<close>, and the peak stage ends with objective 0.
\<close>

theorem minimize_S5_counterexample:
  "minimize enum_backend [1, 2, 3, 4] [1, 1, 5, 5] (Some [1, 2, 3, 4]) False (Clauses_init 4)
     = Some (Inr ((Some [- 1, - 2, - 3, - 4], 0),
         \<lparr>unsat = False, m = 4, sat_solver = \<lparr>clause_list = [[- 1], [- 2], [- 3], [- 4]]\<rparr>,
            backend_calls = 1\<rparr>))
   \<and> stage enum_backend False True [1, 2, 3, 4] [1, 1, 5, 5] 0 (Some 0) [1, 2, 3, 4]
       (Clauses_init 4)
     = Some (Inr \<lparr>b_lo = 0, b_hi = 0, b_try0 = Some 0, b_bestsol = [- 1, - 2, - 3, - 4],
          b_bestval = 0,
          b_driver = \<lparr>unsat = False, m = 4,
             sat_solver = \<lparr>clause_list = [[- 1], [- 2], [- 3], [- 4]]\<rparr>, backend_calls = 1\<rparr>\<rparr>)"
  by code_simp


section \<open>What the clauses of a combinator mean\<close>

lemma lit_true_neg [simp]: "l \<noteq> 0 \<Longrightarrow> lit_true M (- l) = (\<not> lit_true M l)"
  using TRUE_pos by (auto simp: lit_true_def FALSE_def)

lemma lit_true_consts [simp]: "lit_true M TRUE" "\<not> lit_true M FALSE"
  using TRUE_neq_FALSE by (simp_all add: lit_true_def)

lemma consts_nonzero [simp]: "TRUE \<noteq> 0" "FALSE \<noteq> 0" "0 \<noteq> TRUE" "0 \<noteq> FALSE"
  by (simp_all add: TRUE_def FALSE_def)

lemma clauses_true_simps [simp]:
  "clauses_true M []"
  "clauses_true M (c # cs) = (clause_true M c \<and> clauses_true M cs)"
  "clauses_true M (cs @ ds) = (clauses_true M cs \<and> clauses_true M ds)"
  by (auto simp: clauses_true_def)

lemma clause_true_simps [simp]:
  "\<not> clause_true M []"
  "clause_true M (l # c) = (lit_true M l \<or> clause_true M c)"
  "clause_true M (c @ d) = (clause_true M c \<or> clause_true M d)"
  by (auto simp: clause_true_def list_ex_iff)

lemma as_list_simps [simp]:
  "as_list (add_clauses cs s) = as_list s @ cs"
  "as_list (add_clause c s) = as_list s @ [c]"
  "as_list (s\<lparr>m := k\<rparr>) = as_list s"
  "as_list (s\<lparr>unsat := b\<rparr>) = as_list s"
  "as_list (s\<lparr>backend_calls := n\<rparr>) = as_list s"
  by (simp_all add: as_list_def add_clauses_def add_clause_def ClauseList_as_list_def
      ClauseList_extend_def ClauseList_append_def)

lemma field_simps' [simp]:
  "m (add_clauses cs s) = m s" "unsat (add_clauses cs s) = unsat s"
  "backend_calls (add_clauses cs s) = backend_calls s"
  "m (add_clause c s) = m s" "unsat (add_clause c s) = unsat s"
  "backend_calls (add_clause c s) = backend_calls s"
  by (simp_all add: add_clauses_def add_clause_def)

lemma ext_of_self [simp]: "ext_of s s = []"
  by (simp add: ext_of_def)

lemma ext_of_append: "as_list s' = as_list s @ e \<Longrightarrow> ext_of s s' = e"
  by (simp add: ext_of_def)

lemma ext_of_add [simp]:
  "ext_of s (add_clauses cs s') = ext_of s s' @ cs" if "length (as_list s) \<le> length (as_list s')"
  using that by (simp add: ext_of_def)

lemma extends_ext: "extends s s' \<Longrightarrow> as_list s' = as_list s @ ext_of s s'"
  by (auto simp: extends_def ext_of_def)

lemma ext_of_trans:
  "extends s s1 \<Longrightarrow> extends s1 s2 \<Longrightarrow> ext_of s s2 = ext_of s s1 @ ext_of s1 s2"
  by (auto simp: extends_def ext_of_def)

lemma encodes_refl:
  "(\<And>M. (pos_pol p \<longrightarrow> lit_true M x \<longrightarrow> \<phi> M) \<and> (neg_pol p \<longrightarrow> \<phi> M \<longrightarrow> lit_true M x))
   \<Longrightarrow> encodes p s s x \<phi>"
  by (simp add: encodes_def)

lemma fresh_result:
  assumes "x = m s + 1" "0 \<le> m s" "x < TRUE"
    and "\<And>M. (pos_pol p \<longrightarrow> clauses_true M P \<longrightarrow> M x \<longrightarrow> \<phi> M)
           \<and> (neg_pol p \<longrightarrow> clauses_true M N \<longrightarrow> \<phi> M \<longrightarrow> M x)"
  shows "lit_result p s
     (Lit x,
      (let s2 = (if pos_pol p then add_clauses P (s\<lparr>m := x\<rparr>) else s\<lparr>m := x\<rparr>);
           s3 = (if neg_pol p then add_clauses N s2 else s2)
       in s3)) \<phi>"
proof -
  have x: "lit_true M x = M x" "x \<noteq> 0" "m s \<le> x" "x \<le> m s + 1" for M
    using assms(1,2,3) by (auto simp: lit_true_def FALSE_def)
  show ?thesis
    using assms(4)
    by (auto simp: lit_result_def Let_def extends_def encodes_def ext_of_def x)
qed

lemma And_new:
  assumes "f \<noteq> 0" "g \<noteq> 0" "0 \<le> m s" "m s + 1 < TRUE"
  shows "lit_result p s (And f g p True s) (\<lambda>M. lit_true M f \<and> lit_true M g)"
proof -
  define x where "x = m s + 1"
  have x: "lit_true M x = M x" "x \<noteq> 0" for M
    using assms(3,4) by (auto simp: lit_true_def FALSE_def x_def)
  consider (short) "f = FALSE \<or> g = FALSE \<or> f = TRUE \<or> g = TRUE \<or> f = g \<or> f = - g"
    | (new) "\<not> (f = FALSE \<or> g = FALSE \<or> f = TRUE \<or> g = TRUE \<or> f = g \<or> f = - g)" by blast
  then show ?thesis
  proof cases
    case short
    with assms(1,2) show ?thesis
      by (auto simp: And_def lit_result_def encodes_def)
  next
    case new
    have "And f g p True s = (Lit x,
      (let s2 = (if pos_pol p then add_clauses [[- x, min f g], [- x, max f g]] (s\<lparr>m := x\<rparr>)
                 else s\<lparr>m := x\<rparr>);
           s3 = (if neg_pol p then add_clauses [[x, - min f g, - max f g]] s2 else s2)
       in s3))"
      using new by (auto simp: And_def new_var_def Let_def min_def max_def x_def)
    moreover have "lit_result p s \<dots> (\<lambda>M. lit_true M f \<and> lit_true M g)"
      by (rule fresh_result [OF x_def assms(3)])
         (use assms(1,2,4) in \<open>auto simp: x min_def max_def x_def [symmetric]\<close>)
    ultimately show ?thesis by simp
  qed
qed

lemma Or_new:
  assumes "f \<noteq> 0" "g \<noteq> 0" "0 \<le> m s" "m s + 1 < TRUE"
  shows "lit_result p s (Or f g p True s) (\<lambda>M. lit_true M f \<or> lit_true M g)"
proof -
  define x where "x = m s + 1"
  have x: "lit_true M x = M x" "x \<noteq> 0" for M
    using assms(3,4) by (auto simp: lit_true_def FALSE_def x_def)
  consider (short) "f = FALSE \<or> g = FALSE \<or> f = TRUE \<or> g = TRUE \<or> f = g \<or> f = - g"
    | (new) "\<not> (f = FALSE \<or> g = FALSE \<or> f = TRUE \<or> g = TRUE \<or> f = g \<or> f = - g)" by blast
  then show ?thesis
  proof cases
    case short
    with assms(1,2) show ?thesis
      by (auto simp: Or_def lit_result_def encodes_def)
  next
    case new
    have "Or f g p True s = (Lit x,
      (let s2 = (if pos_pol p then add_clauses [[- x, min f g, max f g]] (s\<lparr>m := x\<rparr>)
                 else s\<lparr>m := x\<rparr>);
           s3 = (if neg_pol p then add_clauses [[x, - min f g], [x, - max f g]] s2 else s2)
       in s3))"
      using new by (auto simp: Or_def new_var_def Let_def min_def max_def x_def)
    moreover have "lit_result p s \<dots> (\<lambda>M. lit_true M f \<or> lit_true M g)"
      by (rule fresh_result [OF x_def assms(3)])
         (use assms(1,2,4) in \<open>auto simp: x min_def max_def x_def [symmetric]\<close>)
    ultimately show ?thesis by simp
  qed
qed

lemma Xor_new:
  assumes "f \<noteq> 0" "g \<noteq> 0" "0 \<le> m s" "m s + 1 < TRUE"
  shows "lit_result p s (Xor f g p True s) (\<lambda>M. lit_true M f \<noteq> lit_true M g)"
proof -
  define x where "x = m s + 1"
  have x: "lit_true M x = M x" "x \<noteq> 0" for M
    using assms(3,4) by (auto simp: lit_true_def FALSE_def x_def)
  consider (short) "f = FALSE \<or> g = FALSE \<or> f = TRUE \<or> g = TRUE \<or> f = g \<or> f = - g"
    | (new) "\<not> (f = FALSE \<or> g = FALSE \<or> f = TRUE \<or> g = TRUE \<or> f = g \<or> f = - g)" by blast
  then show ?thesis
  proof cases
    case short
    with assms(1,2) show ?thesis
      by (auto simp: Xor_def lit_result_def encodes_def Not_lit_def)
  next
    case new
    have "Xor f g p True s = (Lit x,
      (let s2 = (if pos_pol p then add_clauses [[- x, min f g, max f g], [- x, - min f g, - max f g]] (s\<lparr>m := x\<rparr>)
                 else s\<lparr>m := x\<rparr>);
           s3 = (if neg_pol p then add_clauses [[x, - min f g, max f g], [x, min f g, - max f g]] s2 else s2)
       in s3))"
      using new by (auto simp: Xor_def new_var_def Let_def min_def max_def x_def)
    moreover have "lit_result p s \<dots> (\<lambda>M. lit_true M f \<noteq> lit_true M g)"
      by (rule fresh_result [OF x_def assms(3)])
         (use assms(1,2,4) in \<open>auto simp: x min_def max_def x_def [symmetric]\<close>)
    ultimately show ?thesis by simp
  qed
qed

lemma lit_result_cong:
  "lit_result p s r \<phi> \<Longrightarrow> (\<And>M. \<phi> M = \<psi> M) \<Longrightarrow> lit_result p s r \<psi>"
  by (simp add: lit_result_def encodes_def)

lemma lit_result_same:
  "x \<noteq> 0 \<Longrightarrow> (\<And>M. lit_true M x = \<phi> M) \<Longrightarrow> lit_result p s (Lit x, s) \<phi>"
  by (simp add: lit_result_def encodes_def)

lemma ITE_new:
  assumes nz: "c \<noteq> 0" "t \<noteq> 0" "f \<noteq> 0" and ms: "0 \<le> m s" "m s + 1 < TRUE"
  shows "lit_result p s (ITE c t f p True s)
           (\<lambda>M. if lit_true M c then lit_true M t else lit_true M f)"
    (is "lit_result p s _ ?ite")
proof -
  define x where "x = m s + 1"
  have x: "lit_true M x = M x" "x \<noteq> 0" for M
    using ms by (auto simp: lit_true_def FALSE_def x_def)
  have nc: "- c \<noteq> 0" using nz by simp
  note A = And_new [OF _ _ ms, of _ _ p] and O = Or_new [OF _ _ ms, of _ _ p]
    and X = Xor_new [OF _ _ ms, of _ _ p]
  show ?thesis
  proof (cases "c = TRUE")
    case T: True
    have "ITE c t f p True s = (Lit t, s)"
      using T  by (simp add: ITE_def)
    moreover have "lit_result p s \<dots> ?ite"
      by (rule lit_result_same) (use T nz in auto)
    ultimately show ?thesis by simp
  next
    case F0: False
    show ?thesis
    proof (cases "c = FALSE")
      case T: True
      have "ITE c t f p True s = (Lit f, s)"
        using T F0 by (simp add: ITE_def)
      moreover have "lit_result p s \<dots> ?ite"
        by (rule lit_result_same) (use T nz in auto)
      ultimately show ?thesis by simp
    next
      case F1: False
      show ?thesis
      proof (cases "t = TRUE")
        case T: True
        have "ITE c t f p True s = Or c f p True s"
          using T F0 F1 by (simp add: ITE_def)
        moreover have "lit_result p s \<dots> ?ite"
          by (rule lit_result_cong [OF O [OF nz(1) nz(3)]]) (use T F0 F1 nz in auto)
        ultimately show ?thesis by simp
      next
        case F2: False
        show ?thesis
        proof (cases "t = FALSE")
          case T: True
          have "ITE c t f p True s = And (- c) f p True s"
            using T F0 F1 F2 by (simp add: ITE_def)
          moreover have "lit_result p s \<dots> ?ite"
            by (rule lit_result_cong [OF A [OF nc nz(3)]]) (use T F0 F1 F2 nz in auto)
          ultimately show ?thesis by simp
        next
          case F3: False
          show ?thesis
          proof (cases "f = FALSE")
            case T: True
            have "ITE c t f p True s = And c t p True s"
              using T F0 F1 F2 F3 by (simp add: ITE_def)
            moreover have "lit_result p s \<dots> ?ite"
              by (rule lit_result_cong [OF A [OF nz(1) nz(2)]]) (use T F0 F1 F2 F3 nz in auto)
            ultimately show ?thesis by simp
          next
            case F4: False
            show ?thesis
            proof (cases "f = TRUE")
              case T: True
              have "ITE c t f p True s = Or t (- c) p True s"
                using T F0 F1 F2 F3 F4 by (simp add: ITE_def)
              moreover have "lit_result p s \<dots> ?ite"
                by (rule lit_result_cong [OF O [OF nz(2) nc]]) (use T F0 F1 F2 F3 F4 nz in auto)
              ultimately show ?thesis by simp
            next
              case F5: False
              show ?thesis
              proof (cases "t = c")
                case T: True
                have "ITE c t f p True s = Or c f p True s"
                  using T F0 F1 F2 F3 F4 F5 by (simp add: ITE_def)
                moreover have "lit_result p s \<dots> ?ite"
                  by (rule lit_result_cong [OF O [OF nz(1) nz(3)]]) (use T F0 F1 F2 F3 F4 F5 nz in auto)
                ultimately show ?thesis by simp
              next
                case F6: False
                show ?thesis
                proof (cases "t = - c")
                  case T: True
                  have "ITE c t f p True s = And (- c) f p True s"
                    using T F0 F1 F2 F3 F4 F5 F6 by (simp add: ITE_def)
                  moreover have "lit_result p s \<dots> ?ite"
                    by (rule lit_result_cong [OF A [OF nc nz(3)]]) (use T F0 F1 F2 F3 F4 F5 F6 nz in auto)
                  ultimately show ?thesis by simp
                next
                  case F7: False
                  show ?thesis
                  proof (cases "f = c")
                    case T: True
                    have "ITE c t f p True s = And c t p True s"
                      using T F0 F1 F2 F3 F4 F5 F6 F7 by (simp add: ITE_def)
                    moreover have "lit_result p s \<dots> ?ite"
                      by (rule lit_result_cong [OF A [OF nz(1) nz(2)]]) (use T F0 F1 F2 F3 F4 F5 F6 F7 nz in auto)
                    ultimately show ?thesis by simp
                  next
                    case F8: False
                    show ?thesis
                    proof (cases "f = - c")
                      case T: True
                      have "ITE c t f p True s = Or t (- c) p True s"
                        using T F0 F1 F2 F3 F4 F5 F6 F7 F8 by (simp add: ITE_def)
                      moreover have "lit_result p s \<dots> ?ite"
                        by (rule lit_result_cong [OF O [OF nz(2) nc]]) (use T F0 F1 F2 F3 F4 F5 F6 F7 F8 nz in auto)
                      ultimately show ?thesis by simp
                    next
                      case F9: False
                      show ?thesis
                      proof (cases "t = f")
                        case T: True
                        have "ITE c t f p True s = (Lit t, s)"
                          using T F0 F1 F2 F3 F4 F5 F6 F7 F8 F9 by (simp add: ITE_def)
                        moreover have "lit_result p s \<dots> ?ite"
                          by (rule lit_result_same) (use T nz in auto)
                        ultimately show ?thesis by simp
                      next
                        case F10: False
                        show ?thesis
                        proof (cases "t = - f")
                          case T: True
                          have "ITE c t f p True s = Xor c f p True s"
                            using T F0 F1 F2 F3 F4 F5 F6 F7 F8 F9 F10 by (simp add: ITE_def)
                          moreover have "lit_result p s \<dots> ?ite"
                            by (rule lit_result_cong [OF X [OF nz(1) nz(3)]]) (use T F0 F1 F2 F3 F4 F5 F6 F7 F8 F9 F10 nz in auto)
                          ultimately show ?thesis by simp
                        next
                          case F11: False
                          show ?thesis
                          proof -
                          define t' where "t' = (if t < f then f else t)"
                          define f' where "f' = (if t < f then t else f)"
                          define c' where "c' = (if t < f then - c else c)"
                          have "ITE c t f p True s = (Lit x,
                            (let s2 = (if pos_pol p
                                       then add_clauses [[- x, - c', t'], [- x, c', f'], [- x, t', f']] (s\<lparr>m := x\<rparr>)
                                       else s\<lparr>m := x\<rparr>);
                                 s3 = (if neg_pol p
                                       then add_clauses [[x, - c', - t'], [x, c', - f'], [x, - t', - f']] s2 else s2)
                             in s3))"
                            using F0 F1 F2 F3 F4 F5 F6 F7 F8 F9 F10 F11
                            by (simp add: ITE_def new_var_def Let_def x_def t'_def f'_def c'_def)
                          moreover have "lit_result p s \<dots> ?ite"
                            by (rule fresh_result [OF x_def ms(1)])
                               (use nz ms(2) in \<open>auto simp: x x_def [symmetric] t'_def f'_def c'_def\<close>)
                          ultimately show ?thesis by simp
                        qed
                        qed
                      qed
                    qed
                  qed
                qed
              qed
            qed
          qed
        qed
      qed
    qed
  qed
qed

lemma lit_ok_uminus [simp]: "lit_ok n (- l) = lit_ok n l"
  by (auto simp: lit_ok_def FALSE_def)

lemma lit_ok_mono: "lit_ok n l \<Longrightarrow> n \<le> n' \<Longrightarrow> lit_ok n' l"
  by (auto simp: lit_ok_def)

lemma lit_ok_consts [simp]: "lit_ok n TRUE" "lit_ok n FALSE"
  by (simp_all add: lit_ok_def)

lemma lit_true_agree:
  "lit_ok n l \<Longrightarrow> (\<forall>v. v \<le> n \<longrightarrow> M' v = M v) \<Longrightarrow> lit_true M' l = lit_true M l"
  by (auto simp: lit_ok_def lit_true_def)

lemma lit_true_agree_le:
  "l \<noteq> 0 \<Longrightarrow> \<bar>l\<bar> \<le> n \<Longrightarrow> (\<forall>v. v \<le> n \<longrightarrow> M' v = M v) \<Longrightarrow> lit_true M' l = lit_true M l"
  by (auto simp: lit_true_def)

lemma clauses_true_agree:
  assumes "\<forall>c\<in>set cs. \<forall>l\<in>set c. l \<noteq> 0 \<and> \<bar>l\<bar> \<le> n" "\<forall>v. v \<le> n \<longrightarrow> M' v = M v"
  shows "clauses_true M' cs = clauses_true M cs"
proof -
  have "lit_true M' l = lit_true M l" if "c \<in> set cs" "l \<in> set c" for c l
    using that assms lit_true_agree_le [of l n M' M] by blast
  then show ?thesis
    by (auto simp: clauses_true_def clause_true_def list_all_iff list_ex_iff)
qed

lemma ext_ok_refl [simp]: "ext_ok s s"
  by (auto simp: ext_ok_def)

lemma ext_ok_trans:
  assumes "ext_ok s s1" "ext_ok s1 s2" "extends s s1" "extends s1 s2"
  shows "ext_ok s s2"
proof -
  have e: "ext_of s s2 = ext_of s s1 @ ext_of s1 s2"
    using assms(3,4) by (rule ext_of_trans)
  have le: "m s \<le> m s1" "m s1 \<le> m s2"
    using assms(3,4) by (simp_all add: extends_def)
  have b1: "\<forall>c\<in>set (ext_of s s1). \<forall>l\<in>set c. l \<noteq> 0 \<and> \<bar>l\<bar> \<le> m s1"
    using assms(1) by (simp add: ext_ok_def)
  have 1: "\<forall>c\<in>set (ext_of s s2). \<forall>l\<in>set c. l \<noteq> 0 \<and> \<bar>l\<bar> \<le> m s2"
  proof (intro ballI)
    fix c l assume c: "c \<in> set (ext_of s s2)" and l: "l \<in> set c"
    from c consider "c \<in> set (ext_of s s1)" | "c \<in> set (ext_of s1 s2)"
      unfolding e by auto
    then show "l \<noteq> 0 \<and> \<bar>l\<bar> \<le> m s2"
    proof cases
      case 1
      with b1 l have "l \<noteq> 0 \<and> \<bar>l\<bar> \<le> m s1" by blast
      with le show ?thesis by simp
    next
      case 2
      with assms(2) l show ?thesis unfolding ext_ok_def by blast
    qed
  qed
  have 2: "\<exists>M'. (\<forall>v. v \<le> m s \<longrightarrow> M' v = M v) \<and> clauses_true M' (ext_of s s2)" for M
  proof -
    from assms(1) obtain M1 where M1: "\<forall>v. v \<le> m s \<longrightarrow> M1 v = M v" "clauses_true M1 (ext_of s s1)"
      unfolding ext_ok_def by blast
    from assms(2) obtain M2 where M2: "\<forall>v. v \<le> m s1 \<longrightarrow> M2 v = M1 v" "clauses_true M2 (ext_of s1 s2)"
      unfolding ext_ok_def by blast
    have "clauses_true M2 (ext_of s s1)"
      using clauses_true_agree [OF b1 M2(1)] M1(2) by simp
    moreover have "\<forall>v. v \<le> m s \<longrightarrow> M2 v = M v"
      using M1(1) M2(1) le by simp
    ultimately show ?thesis
      using M2(2) unfolding e by (intro exI [of _ M2]) simp
  qed
  from 1 2 show ?thesis unfolding ext_ok_def by blast
qed

lemma fresh_ok_same: "lit_ok (m s) x \<Longrightarrow> fresh_ok s (Lit x, s)"
  by (simp add: fresh_ok_def)

lemma fresh_ext:
  assumes "x = m s + 1" "0 \<le> m s" "x < TRUE"
    and "\<forall>c\<in>set (P @ N). \<forall>l\<in>set c. l \<noteq> 0 \<and> \<bar>l\<bar> \<le> x"
    and "\<And>M M'. (\<forall>v. v \<le> m s \<longrightarrow> M' v = M v) \<Longrightarrow> \<phi> M' = \<phi> M"
    and "\<And>M. M x = \<phi> M \<Longrightarrow> clauses_true M P \<and> clauses_true M N"
  shows "fresh_ok s
     (Lit x,
      (let s2 = (if pos_pol p then add_clauses P (s\<lparr>m := x\<rparr>) else s\<lparr>m := x\<rparr>);
           s3 = (if neg_pol p then add_clauses N s2 else s2)
       in s3))"
proof -
  have 2: "\<exists>M'. (\<forall>v. v \<le> m s \<longrightarrow> M' v = M v) \<and> clauses_true M' P \<and> clauses_true M' N" for M
  proof -
    define M' where "M' = M(x := \<phi> M)"
    have a: "\<forall>v. v \<le> m s \<longrightarrow> M' v = M v"
      using assms(1) by (simp add: M'_def)
    then have "\<phi> M' = \<phi> M" by (rule assms(5))
    then have "M' x = \<phi> M'" by (simp add: M'_def)
    from assms(6) [OF this] a show ?thesis by blast
  qed
  have x: "lit_ok x x" using assms(1,2) by (simp add: lit_ok_def)
  have b: "\<forall>c\<in>set P. \<forall>l\<in>set c. l \<noteq> 0 \<and> \<bar>l\<bar> \<le> x"
    "\<forall>c\<in>set N. \<forall>l\<in>set c. l \<noteq> 0 \<and> \<bar>l\<bar> \<le> x"
    using assms(4) by auto
  define s3 where "s3 = (let s2 = (if pos_pol p then add_clauses P (s\<lparr>m := x\<rparr>) else s\<lparr>m := x\<rparr>)
       in if neg_pol p then add_clauses N s2 else s2)"
  have e: "ext_of s s3 = (if pos_pol p then P else []) @ (if neg_pol p then N else [])"
    and ms: "m s3 = x"
    by (simp_all add: s3_def Let_def ext_of_def)
  have "ext_ok s s3"
    unfolding ext_ok_def e ms
  proof (intro conjI allI)
    show "\<forall>c\<in>set ((if pos_pol p then P else []) @ (if neg_pol p then N else [])). \<forall>l\<in>set c. l \<noteq> 0 \<and> \<bar>l\<bar> \<le> x"
      using b by auto
    fix M
    from 2 [of M] obtain M' where "\<forall>v. v \<le> m s \<longrightarrow> M' v = M v" "clauses_true M' P" "clauses_true M' N"
      by blast
    then show "\<exists>M'. (\<forall>v. v \<le> m s \<longrightarrow> M' v = M v) \<and> clauses_true M' ((if pos_pol p then P else []) @ (if neg_pol p then N else []))"
      by (intro exI [of _ M']) simp
  qed
  with x ms show ?thesis
    by (simp add: fresh_ok_def s3_def Let_def)
qed

lemma And_fresh:
  assumes ok: "lit_ok (m s) f" "lit_ok (m s) g" and ms: "0 \<le> m s" "m s + 1 < TRUE"
  shows "fresh_ok s (And f g p True s)"
proof -
  define x where "x = m s + 1"
  have x: "lit_true M x = M x" "x \<noteq> 0" for M
    using ms by (auto simp: lit_true_def FALSE_def x_def)
  have nz: "f \<noteq> 0" "g \<noteq> 0" using ok by (simp_all add: lit_ok_def)
  consider (short) "f = FALSE \<or> g = FALSE \<or> f = TRUE \<or> g = TRUE \<or> f = g \<or> f = - g"
    | (new) "\<not> (f = FALSE \<or> g = FALSE \<or> f = TRUE \<or> g = TRUE \<or> f = g \<or> f = - g)" by blast
  then show ?thesis
  proof cases
    case short
    with ok show ?thesis
      by (auto simp: And_def Not_lit_def intro!: fresh_ok_same)
  next
    case new
    with ok have le: "\<bar>f\<bar> \<le> m s" "\<bar>g\<bar> \<le> m s"
      by (auto simp: lit_ok_def)
    have "And f g p True s = (Lit x,
      (let s2 = (if pos_pol p then add_clauses [[- x, min f g], [- x, max f g]] (s\<lparr>m := x\<rparr>)
                 else s\<lparr>m := x\<rparr>);
           s3 = (if neg_pol p then add_clauses [[x, - min f g, - max f g]] s2 else s2)
       in s3))"
      using new by (auto simp: And_def new_var_def Let_def min_def max_def x_def)
    moreover have "fresh_ok s \<dots>"
    proof (rule fresh_ext [OF x_def ms(1), where \<phi> = "\<lambda>M. lit_true M f \<and> lit_true M g"])
      show "x < TRUE" using ms by (simp add: x_def)
      show "\<forall>c\<in>set ([[- x, min f g], [- x, max f g]] @ [[x, - min f g, - max f g]]). \<forall>l\<in>set c. l \<noteq> 0 \<and> \<bar>l\<bar> \<le> x"
        using le nz ms by (auto simp: x_def min_def max_def)
      show "(lit_true M' f \<and> lit_true M' g) = (lit_true M f \<and> lit_true M g)" if "\<forall>v. v \<le> m s \<longrightarrow> M' v = M v" for M M'
        using lit_true_agree [OF ok(1) that] lit_true_agree [OF ok(2) that] by simp
      show "clauses_true M [[- x, min f g], [- x, max f g]] \<and> clauses_true M [[x, - min f g, - max f g]]" if "M x = (lit_true M f \<and> lit_true M g)" for M
        using that nz by (auto simp: x min_def max_def)
    qed
    ultimately show ?thesis by simp
  qed
qed

lemma Or_fresh:
  assumes ok: "lit_ok (m s) f" "lit_ok (m s) g" and ms: "0 \<le> m s" "m s + 1 < TRUE"
  shows "fresh_ok s (Or f g p True s)"
proof -
  define x where "x = m s + 1"
  have x: "lit_true M x = M x" "x \<noteq> 0" for M
    using ms by (auto simp: lit_true_def FALSE_def x_def)
  have nz: "f \<noteq> 0" "g \<noteq> 0" using ok by (simp_all add: lit_ok_def)
  consider (short) "f = FALSE \<or> g = FALSE \<or> f = TRUE \<or> g = TRUE \<or> f = g \<or> f = - g"
    | (new) "\<not> (f = FALSE \<or> g = FALSE \<or> f = TRUE \<or> g = TRUE \<or> f = g \<or> f = - g)" by blast
  then show ?thesis
  proof cases
    case short
    with ok show ?thesis
      by (auto simp: Or_def Not_lit_def intro!: fresh_ok_same)
  next
    case new
    with ok have le: "\<bar>f\<bar> \<le> m s" "\<bar>g\<bar> \<le> m s"
      by (auto simp: lit_ok_def)
    have "Or f g p True s = (Lit x,
      (let s2 = (if pos_pol p then add_clauses [[- x, min f g, max f g]] (s\<lparr>m := x\<rparr>)
                 else s\<lparr>m := x\<rparr>);
           s3 = (if neg_pol p then add_clauses [[x, - min f g], [x, - max f g]] s2 else s2)
       in s3))"
      using new by (auto simp: Or_def new_var_def Let_def min_def max_def x_def)
    moreover have "fresh_ok s \<dots>"
    proof (rule fresh_ext [OF x_def ms(1), where \<phi> = "\<lambda>M. lit_true M f \<or> lit_true M g"])
      show "x < TRUE" using ms by (simp add: x_def)
      show "\<forall>c\<in>set ([[- x, min f g, max f g]] @ [[x, - min f g], [x, - max f g]]). \<forall>l\<in>set c. l \<noteq> 0 \<and> \<bar>l\<bar> \<le> x"
        using le nz ms by (auto simp: x_def min_def max_def)
      show "(lit_true M' f \<or> lit_true M' g) = (lit_true M f \<or> lit_true M g)" if "\<forall>v. v \<le> m s \<longrightarrow> M' v = M v" for M M'
        using lit_true_agree [OF ok(1) that] lit_true_agree [OF ok(2) that] by simp
      show "clauses_true M [[- x, min f g, max f g]] \<and> clauses_true M [[x, - min f g], [x, - max f g]]" if "M x = (lit_true M f \<or> lit_true M g)" for M
        using that nz by (auto simp: x min_def max_def)
    qed
    ultimately show ?thesis by simp
  qed
qed

lemma Xor_fresh:
  assumes ok: "lit_ok (m s) f" "lit_ok (m s) g" and ms: "0 \<le> m s" "m s + 1 < TRUE"
  shows "fresh_ok s (Xor f g p True s)"
proof -
  define x where "x = m s + 1"
  have x: "lit_true M x = M x" "x \<noteq> 0" for M
    using ms by (auto simp: lit_true_def FALSE_def x_def)
  have nz: "f \<noteq> 0" "g \<noteq> 0" using ok by (simp_all add: lit_ok_def)
  consider (short) "f = FALSE \<or> g = FALSE \<or> f = TRUE \<or> g = TRUE \<or> f = g \<or> f = - g"
    | (new) "\<not> (f = FALSE \<or> g = FALSE \<or> f = TRUE \<or> g = TRUE \<or> f = g \<or> f = - g)" by blast
  then show ?thesis
  proof cases
    case short
    with ok show ?thesis
      by (auto simp: Xor_def Not_lit_def intro!: fresh_ok_same)
  next
    case new
    with ok have le: "\<bar>f\<bar> \<le> m s" "\<bar>g\<bar> \<le> m s"
      by (auto simp: lit_ok_def)
    have "Xor f g p True s = (Lit x,
      (let s2 = (if pos_pol p then add_clauses [[- x, min f g, max f g], [- x, - min f g, - max f g]] (s\<lparr>m := x\<rparr>)
                 else s\<lparr>m := x\<rparr>);
           s3 = (if neg_pol p then add_clauses [[x, - min f g, max f g], [x, min f g, - max f g]] s2 else s2)
       in s3))"
      using new by (auto simp: Xor_def new_var_def Let_def min_def max_def x_def)
    moreover have "fresh_ok s \<dots>"
    proof (rule fresh_ext [OF x_def ms(1), where \<phi> = "\<lambda>M. lit_true M f \<noteq> lit_true M g"])
      show "x < TRUE" using ms by (simp add: x_def)
      show "\<forall>c\<in>set ([[- x, min f g, max f g], [- x, - min f g, - max f g]] @ [[x, - min f g, max f g], [x, min f g, - max f g]]). \<forall>l\<in>set c. l \<noteq> 0 \<and> \<bar>l\<bar> \<le> x"
        using le nz ms by (auto simp: x_def min_def max_def)
      show "(lit_true M' f \<noteq> lit_true M' g) = (lit_true M f \<noteq> lit_true M g)" if "\<forall>v. v \<le> m s \<longrightarrow> M' v = M v" for M M'
        using lit_true_agree [OF ok(1) that] lit_true_agree [OF ok(2) that] by simp
      show "clauses_true M [[- x, min f g, max f g], [- x, - min f g, - max f g]] \<and> clauses_true M [[x, - min f g, max f g], [x, min f g, - max f g]]" if "M x = (lit_true M f \<noteq> lit_true M g)" for M
        using that nz by (auto simp: x min_def max_def)
    qed
    ultimately show ?thesis by simp
  qed
qed

lemma ITE_fresh:
  assumes ok: "lit_ok (m s) c" "lit_ok (m s) t" "lit_ok (m s) f" and ms: "0 \<le> m s" "m s + 1 < TRUE"
  shows "fresh_ok s (ITE c t f p True s)"
proof -
  define x where "x = m s + 1"
  have x: "lit_true M x = M x" "x \<noteq> 0" for M
    using ms by (auto simp: lit_true_def FALSE_def x_def)
  have nz: "c \<noteq> 0" "t \<noteq> 0" "f \<noteq> 0" using ok by (simp_all add: lit_ok_def)
  have nc: "lit_ok (m s) (- c)" using ok by simp
  note A = And_fresh [OF _ _ ms, of _ _ p] and O = Or_fresh [OF _ _ ms, of _ _ p]
    and X = Xor_fresh [OF _ _ ms, of _ _ p]
  show ?thesis
  proof (cases "c = TRUE")
    case T: True
    have "ITE c t f p True s = (Lit t, s)"
      using T  by (simp add: ITE_def)
    moreover have "fresh_ok s \<dots>"
      by (rule fresh_ok_same) (use ok in auto)
    ultimately show ?thesis by simp
  next
    case F0: False
    show ?thesis
    proof (cases "c = FALSE")
      case T: True
      have "ITE c t f p True s = (Lit f, s)"
        using T F0 by (simp add: ITE_def)
      moreover have "fresh_ok s \<dots>"
        by (rule fresh_ok_same) (use ok in auto)
      ultimately show ?thesis by simp
    next
      case F1: False
      show ?thesis
      proof (cases "t = TRUE")
        case T: True
        have "ITE c t f p True s = Or c f p True s"
          using T F0 F1 by (simp add: ITE_def)
        moreover have "fresh_ok s \<dots>"
          by (rule O [OF ok(1) ok(3)])
        ultimately show ?thesis by simp
      next
        case F2: False
        show ?thesis
        proof (cases "t = FALSE")
          case T: True
          have "ITE c t f p True s = And (- c) f p True s"
            using T F0 F1 F2 by (simp add: ITE_def)
          moreover have "fresh_ok s \<dots>"
            by (rule A [OF nc ok(3)])
          ultimately show ?thesis by simp
        next
          case F3: False
          show ?thesis
          proof (cases "f = FALSE")
            case T: True
            have "ITE c t f p True s = And c t p True s"
              using T F0 F1 F2 F3 by (simp add: ITE_def)
            moreover have "fresh_ok s \<dots>"
              by (rule A [OF ok(1) ok(2)])
            ultimately show ?thesis by simp
          next
            case F4: False
            show ?thesis
            proof (cases "f = TRUE")
              case T: True
              have "ITE c t f p True s = Or t (- c) p True s"
                using T F0 F1 F2 F3 F4 by (simp add: ITE_def)
              moreover have "fresh_ok s \<dots>"
                by (rule O [OF ok(2) nc])
              ultimately show ?thesis by simp
            next
              case F5: False
              show ?thesis
              proof (cases "t = c")
                case T: True
                have "ITE c t f p True s = Or c f p True s"
                  using T F0 F1 F2 F3 F4 F5 by (simp add: ITE_def)
                moreover have "fresh_ok s \<dots>"
                  by (rule O [OF ok(1) ok(3)])
                ultimately show ?thesis by simp
              next
                case F6: False
                show ?thesis
                proof (cases "t = - c")
                  case T: True
                  have "ITE c t f p True s = And (- c) f p True s"
                    using T F0 F1 F2 F3 F4 F5 F6 by (simp add: ITE_def)
                  moreover have "fresh_ok s \<dots>"
                    by (rule A [OF nc ok(3)])
                  ultimately show ?thesis by simp
                next
                  case F7: False
                  show ?thesis
                  proof (cases "f = c")
                    case T: True
                    have "ITE c t f p True s = And c t p True s"
                      using T F0 F1 F2 F3 F4 F5 F6 F7 by (simp add: ITE_def)
                    moreover have "fresh_ok s \<dots>"
                      by (rule A [OF ok(1) ok(2)])
                    ultimately show ?thesis by simp
                  next
                    case F8: False
                    show ?thesis
                    proof (cases "f = - c")
                      case T: True
                      have "ITE c t f p True s = Or t (- c) p True s"
                        using T F0 F1 F2 F3 F4 F5 F6 F7 F8 by (simp add: ITE_def)
                      moreover have "fresh_ok s \<dots>"
                        by (rule O [OF ok(2) nc])
                      ultimately show ?thesis by simp
                    next
                      case F9: False
                      show ?thesis
                      proof (cases "t = f")
                        case T: True
                        have "ITE c t f p True s = (Lit t, s)"
                          using T F0 F1 F2 F3 F4 F5 F6 F7 F8 F9 by (simp add: ITE_def)
                        moreover have "fresh_ok s \<dots>"
                          by (rule fresh_ok_same) (use ok in auto)
                        ultimately show ?thesis by simp
                      next
                        case F10: False
                        show ?thesis
                        proof (cases "t = - f")
                          case T: True
                          have "ITE c t f p True s = Xor c f p True s"
                            using T F0 F1 F2 F3 F4 F5 F6 F7 F8 F9 F10 by (simp add: ITE_def)
                          moreover have "fresh_ok s \<dots>"
                            by (rule X [OF ok(1) ok(3)])
                          ultimately show ?thesis by simp
                        next
                          case F11: False
                          show ?thesis
                          proof -
                          define t' where "t' = (if t < f then f else t)"
                          define f' where "f' = (if t < f then t else f)"
                          define c' where "c' = (if t < f then - c else c)"
                          have le: "\<bar>c\<bar> \<le> m s" "\<bar>t\<bar> \<le> m s" "\<bar>f\<bar> \<le> m s"
                            using ok F0 F1 F2 F3 F4 F5 by (auto simp: lit_ok_def)
                          have "ITE c t f p True s = (Lit x,
                            (let s2 = (if pos_pol p
                                       then add_clauses [[- x, - c', t'], [- x, c', f'], [- x, t', f']] (s\<lparr>m := x\<rparr>)
                                       else s\<lparr>m := x\<rparr>);
                                 s3 = (if neg_pol p
                                       then add_clauses [[x, - c', - t'], [x, c', - f'], [x, - t', - f']] s2 else s2)
                             in s3))"
                            using F0 F1 F2 F3 F4 F5 F6 F7 F8 F9 F10 F11
                            by (simp add: ITE_def new_var_def Let_def x_def t'_def f'_def c'_def)
                          moreover have "fresh_ok s \<dots>"
                          proof (rule fresh_ext [OF x_def ms(1),
                                where \<phi> = "\<lambda>M. if lit_true M c then lit_true M t else lit_true M f"])
                            show "x < TRUE" using ms by (simp add: x_def)
                            show "\<forall>cl\<in>set ([[- x, - c', t'], [- x, c', f'], [- x, t', f']]
                                    @ [[x, - c', - t'], [x, c', - f'], [x, - t', - f']]). \<forall>l\<in>set cl. l \<noteq> 0 \<and> \<bar>l\<bar> \<le> x"
                              using le nz ms by (auto simp: x_def t'_def f'_def c'_def)
                            show "(if lit_true M' c then lit_true M' t else lit_true M' f)
                                = (if lit_true M c then lit_true M t else lit_true M f)"
                              if "\<forall>v. v \<le> m s \<longrightarrow> M' v = M v" for M M'
                              using lit_true_agree [OF ok(1) that] lit_true_agree [OF ok(2) that]
                                lit_true_agree [OF ok(3) that] by simp
                            show "clauses_true M [[- x, - c', t'], [- x, c', f'], [- x, t', f']]
                                \<and> clauses_true M [[x, - c', - t'], [x, c', - f'], [x, - t', - f']]"
                              if "M x = (if lit_true M c then lit_true M t else lit_true M f)" for M
                              using that nz by (auto simp: x t'_def f'_def c'_def)
                          qed
                          ultimately show ?thesis by simp
                        qed
                        qed
                      qed
                    qed
                  qed
                qed
              qed
            qed
          qed
        qed
      qed
    qed
  qed
qed

lemma finite_key_universe [simp]: "finite (key_universe n coeffs)"
  by (simp add: key_universe_def)

lemma prefix_nonneg:
  assumes "n \<le> length coeffs" "\<forall>i<n. 0 \<le> (coeffs ! i :: int)" "j \<le> n"
  shows "0 \<le> sum_list (take j coeffs)"
proof -
  have "\<forall>c\<in>set (take j coeffs). 0 \<le> c"
    using assms by (auto simp: in_set_conv_nth)
  then show ?thesis by (simp add: sum_list_nonneg)
qed

lemma wf_key_universe:
  assumes "wf_key n coeffs k" "n \<le> length coeffs" "\<forall>i<n. 0 \<le> coeffs ! i"
  shows "k \<in> key_universe n coeffs"
proof -
  obtain ndx csum rtotal where k: "k = (ndx, csum, rtotal)" by (cases k)
  from assms(1) have w: "- 1 \<le> ndx" "ndx < int n" "rtotal = sum_list (take (nat (ndx + 1)) coeffs)"
    "0 \<le> csum" "csum + rtotal \<le> sum_list (take n coeffs)"
    by (simp_all add: wf_key_def k)
  have "0 \<le> rtotal"
    unfolding w(3) using w(1,2) by (intro prefix_nonneg [OF assms(2,3)]) simp
  with w have "csum \<le> sum_list (take n coeffs)" by simp
  with w show ?thesis
    by (auto simp: key_universe_def image_iff k)
qed

lemma wsum_Nil [simp]: "wsum M [] cs = 0" "wsum M ls [] = 0"
  by (simp_all add: wsum_def)

lemma wsum_snoc:
  "length ls = length cs \<Longrightarrow>
   wsum M (ls @ [l]) (cs @ [c]) = wsum M ls cs + (if lit_true M l then c else 0)"
  by (simp add: wsum_def)

lemma wsum_take_Suc:
  assumes "j < length lits" "j < length coeffs"
  shows "wsum M (take (Suc j) lits) (take (Suc j) coeffs)
     = wsum M (take j lits) (take j coeffs) + (if lit_true M (lits ! j) then coeffs ! j else 0)"
proof -
  have "length (take j lits) = length (take j coeffs)" using assms by simp
  from wsum_snoc [OF this] assms show ?thesis
    by (simp add: take_Suc_conv_app_nth)
qed

lemma wsum_bounds:
  "\<forall>c\<in>set cs. 0 \<le> c \<Longrightarrow> 0 \<le> wsum M ls cs \<and> wsum M ls cs \<le> sum_list cs"
proof (induction cs arbitrary: ls)
  case Nil
  show ?case by simp
next
  case (Cons c cs)
  show ?case
  proof (cases ls)
    case Nil
    with Cons.prems show ?thesis by (simp add: sum_list_nonneg)
  next
    case (Cons l ls')
    with Cons.IH [of ls'] Cons.prems show ?thesis by (auto simp: wsum_def)
  qed
qed

lemma key_sem_step:
  assumes "0 \<le> ndx" "nat ndx < length lits" "nat ndx < length coeffs" "lits ! nat ndx \<noteq> 0"
  shows "key_sem lits coeffs lo hi (ndx, csum, rtotal) M
     = (if lit_true M \<bar>lits ! nat ndx\<bar>
        then key_sem lits coeffs lo hi
               (ndx - 1, if lits ! nat ndx < 0 then csum else csum + coeffs ! nat ndx, r1) M
        else key_sem lits coeffs lo hi
               (ndx - 1, if lits ! nat ndx < 0 then csum + coeffs ! nat ndx else csum, r2) M)"
proof -
  have n: "nat (ndx + 1) = Suc (nat ndx)" "nat (ndx - 1 + 1) = nat ndx"
    using assms(1) by simp_all
  have a: "lit_true M \<bar>lits ! nat ndx\<bar> = (if lits ! nat ndx < 0 then \<not> lit_true M (lits ! nat ndx)
       else lit_true M (lits ! nat ndx))"
    using assms(4) by (simp add: abs_if)
  show ?thesis
    unfolding key_sem_def prod.case n wsum_take_Suc [OF assms(2,3)] a
    by auto
qed

lemma encodes_mono:
  assumes "encodes p s0 s x \<phi>" "extends s0 s" "extends s s'"
  shows "encodes p s0 s' x \<phi>"
  using assms ext_of_trans [OF assms(2,3)] by (simp add: encodes_def)

lemma encodes_const:
  "(\<And>M. \<phi> M) \<Longrightarrow> encodes p s0 s TRUE \<phi>" "(\<And>M. \<not> \<phi> M) \<Longrightarrow> encodes p s0 s FALSE \<phi>"
  by (simp_all add: encodes_def)

end
